theory Spec2Isabelle
  imports Main
begin

section \<open>The exhibitor directory scraper (scraper.py)\<close>

text \<open>
  The program drives a headless browser through category, subcategory and exhibitor pages,
  appends one CSV row per complete exhibitor record and saves a checkpoint after each
  exhibitor. The browser is an external collaborator: it is modelled as a record of
  operations over an abstract page state \<open>'w\<close>, each returning its answer together with
  the next page state, so that the page may answer differently at every call. An
  operation that may raise \<open>PlaywrightTimeoutError\<close> returns a sum, \<open>Inl\<close> the error.
  The two files and standard output are fields of the program state. Python strings are
  modelled as lists of 8-bit characters.
\<close>

subsection \<open>Constants (lines 15-34)\<close>

definition BASE_URL :: string where
  "BASE_URL = ''https://directory.conexpoconagg.com''"

definition START_URL :: string where
  "START_URL = ''https://directory.conexpoconagg.com/8_0/explore/exhibitor-categories-parent.cfm#/''"

definition CATEGORY_LINK_SELECTOR :: string where
  "CATEGORY_LINK_SELECTOR = ''tbody a[href*='cat-exhibitorcategoriesparents|']''"

definition SUBCATEGORY_LINK_SELECTOR :: string where
  "SUBCATEGORY_LINK_SELECTOR = ''tbody a[href*='cat-exhibitorcategoriesparents|']''"

definition EXHIBITOR_LINK_SELECTOR :: string where
  "EXHIBITOR_LINK_SELECTOR = ''li.js-Card''"

definition EXHIBITOR_LINK_IN_CARD :: string where
  "EXHIBITOR_LINK_IN_CARD = ''a[href*='/exhibitor/exhibitor-details.cfm?exhid=']''"

definition VIEW_ALL_LABEL :: string where
  "VIEW_ALL_LABEL = ''View All Exhibitors''"

definition RESUME_AFTER_COMPANY_NAME :: string where
  "RESUME_AFTER_COMPANY_NAME = ''Stedman Machine Company''"

definition CSV_HEADERS :: "string list" where
  "CSV_HEADERS = [''category'', ''subcategory'', ''company_name'', ''address'',
     ''website'', ''phone'', ''description'', ''booth'']"

subsection \<open>Strings\<close>

text \<open>
  A character stands for the code point of the same number, 0 to 255. On these,
  \<open>str.isspace\<close> holds of 0x09 to 0x0D, 0x1C to 0x1F, the space, 0x85 and 0xA0, and
  \<open>str.strip\<close> removes these from both ends; \<open>str.lower\<close> adds 0x20 to A to Z and to
  0xC0 to 0xDE except 0xD7 and leaves the rest; the class \<open>\d\<close> of the phone pattern
  below holds of 0 to 9.
\<close>

definition is_space :: "char \<Rightarrow> bool" where
  "is_space c = (c \<in> set [CHR 0x09, CHR 0x0A, CHR 0x0B, CHR 0x0C, CHR 0x0D,
     CHR 0x1C, CHR 0x1D, CHR 0x1E, CHR 0x1F, CHR '' '', CHR 0x85, CHR 0xA0])"

definition str_strip :: "string \<Rightarrow> string" where
  "str_strip s = rev (dropWhile is_space (rev (dropWhile is_space s)))"

definition upper_case :: string where
  "upper_case = ''ABCDEFGHIJKLMNOPQRSTUVWXYZ'' @
     [CHR 0xC0, CHR 0xC1, CHR 0xC2, CHR 0xC3, CHR 0xC4, CHR 0xC5, CHR 0xC6, CHR 0xC7,
      CHR 0xC8, CHR 0xC9, CHR 0xCA, CHR 0xCB, CHR 0xCC, CHR 0xCD, CHR 0xCE, CHR 0xCF,
      CHR 0xD0, CHR 0xD1, CHR 0xD2, CHR 0xD3, CHR 0xD4, CHR 0xD5, CHR 0xD6,
      CHR 0xD8, CHR 0xD9, CHR 0xDA, CHR 0xDB, CHR 0xDC, CHR 0xDD, CHR 0xDE]"

definition lower_case :: string where
  "lower_case = ''abcdefghijklmnopqrstuvwxyz'' @
     [CHR 0xE0, CHR 0xE1, CHR 0xE2, CHR 0xE3, CHR 0xE4, CHR 0xE5, CHR 0xE6, CHR 0xE7,
      CHR 0xE8, CHR 0xE9, CHR 0xEA, CHR 0xEB, CHR 0xEC, CHR 0xED, CHR 0xEE, CHR 0xEF,
      CHR 0xF0, CHR 0xF1, CHR 0xF2, CHR 0xF3, CHR 0xF4, CHR 0xF5, CHR 0xF6,
      CHR 0xF8, CHR 0xF9, CHR 0xFA, CHR 0xFB, CHR 0xFC, CHR 0xFD, CHR 0xFE]"

definition lower_char :: "char \<Rightarrow> char" where
  "lower_char c =
     (case map_of (zip upper_case lower_case) c of
        Some l \<Rightarrow> l
      | None \<Rightarrow> c)"

definition str_lower :: "string \<Rightarrow> string" where
  "str_lower s = map lower_char s"

fun join :: "string \<Rightarrow> string list \<Rightarrow> string" where
  "join sep [] = []"
| "join sep [x] = x"
| "join sep (x # y # ys) = x @ sep @ join sep (y # ys)"

text \<open>\<open>str(n)\<close> for the integers that the program formats into its messages.\<close>

fun str_nat :: "nat \<Rightarrow> string" where
  "str_nat n =
     (if n < 10 then [''0123456789'' ! n]
      else str_nat (n div 10) @ [''0123456789'' ! (n mod 10)])"

declare str_nat.simps [simp del]

text \<open>\<open>(x or "")\<close> on a value that is a string or \<open>None\<close>.\<close>

definition or_empty :: "string option \<Rightarrow> string" where
  "or_empty x = (case x of None \<Rightarrow> [] | Some s \<Rightarrow> s)"

subsection \<open>Data\<close>

datatype error = PlaywrightTimeoutError

record Category =
  name :: string
  url :: string

text \<open>
  What the detail extractor reads from the exhibitor page: the text of the first
  \<open>.exhibitor-name\<close> element, the texts of the \<open>address p\<close> elements of the contact
  block, the \<open>href\<close> of each absolute link of the contact block, the inner text of the
  contact block, the texts of the \<open>#section-description\<close> elements and the texts of the
  booth links. \<open>text_content\<close> and \<open>get_attribute\<close> may answer \<open>None\<close>.
\<close>

record raw_page =
  exhibitor_name_text :: "string option"
  address_p_texts :: "string option list"
  website_hrefs :: "string option list"
  contact_inner_text :: string
  description_texts :: "string option list"
  booth_link_texts :: "string option list"

record details =
  company_name :: string
  address :: string
  website :: string
  phone :: string
  description :: string
  booth :: string

text \<open>
  The browser page and \<open>urllib.parse.urljoin\<close>. \<open>goto\<close>, \<open>wait_for_selector\<close>, the
  reads of attributes and texts of located elements, the click and \<open>go_back\<close> wait for
  the page and may raise \<open>PlaywrightTimeoutError\<close>; counting a locator, running the
  overlay script and \<open>wait_for_timeout\<close> do not.
  \<^item> \<open>link_elements sel\<close>: for each element matching \<open>sel\<close>, its \<open>href\<close> attribute and
    its text content (the reads of \<open>_extract_link_text_pairs\<close>);
  \<^item> \<open>card_count\<close>: \<open>page.locator(EXHIBITOR_LINK_SELECTOR).count()\<close>;
  \<^item> \<open>dismiss_overlay\<close>: the \<open>page.evaluate\<close> script of lines 276-289;
  \<^item> \<open>card_link_count i\<close>, \<open>card_link_href i\<close>, \<open>click_card_link i\<close>: on the links
    \<open>cards.nth(i).locator(EXHIBITOR_LINK_IN_CARD)\<close>, their \<open>count()\<close>, the \<open>href\<close> of the
    first, and scrolling to the first and clicking it;
  \<^item> \<open>read_detail_page\<close>: the reads of lines 93-121;
  \<^item> \<open>close\<close>: closing the context and the browser.
\<close>

record 'w driver =
  goto :: "string \<Rightarrow> 'w \<Rightarrow> (error + unit) \<times> 'w"
  wait_for_timeout :: "nat \<Rightarrow> 'w \<Rightarrow> 'w"
  wait_for_selector :: "string \<Rightarrow> 'w \<Rightarrow> (error + unit) \<times> 'w"
  link_elements :: "string \<Rightarrow> 'w \<Rightarrow> (error + (string option \<times> string option) list) \<times> 'w"
  urljoin :: "string \<Rightarrow> string \<Rightarrow> string"
  card_count :: "'w \<Rightarrow> nat \<times> 'w"
  dismiss_overlay :: "'w \<Rightarrow> 'w"
  card_link_count :: "int \<Rightarrow> 'w \<Rightarrow> nat \<times> 'w"
  card_link_href :: "int \<Rightarrow> 'w \<Rightarrow> (error + string option) \<times> 'w"
  click_card_link :: "int \<Rightarrow> 'w \<Rightarrow> (error + unit) \<times> 'w"
  read_detail_page :: "'w \<Rightarrow> (error + raw_page) \<times> 'w"
  page_url :: "'w \<Rightarrow> string"
  go_back :: "'w \<Rightarrow> (error + unit) \<times> 'w"
  close :: "'w \<Rightarrow> 'w"

text \<open>The JSON object of the checkpoint file; \<open>dict.get\<close> of an absent key is \<open>None\<close>.\<close>

record checkpoint =
  ck_category :: "string option"
  ck_subcategory :: "string option"
  ck_exhibitor_index :: "int option"

text \<open>A checkpoint as \<open>_save_checkpoint\<close> writes it.\<close>

definition resumed :: "string \<Rightarrow> string \<Rightarrow> int \<Rightarrow> checkpoint" where
  "resumed C S N = \<lparr>ck_category = Some C, ck_subcategory = Some S, ck_exhibitor_index = Some N\<rparr>"

text \<open>
  The program state: the browser page, the output CSV file (\<open>None\<close> when the file does
  not exist, otherwise its rows), the checkpoint file, the lines printed so far, and the
  flag \<open>resume_name_found\<close> of \<open>run\<close>, which lives across all loops.
\<close>

record 'w state =
  world :: 'w
  output_csv :: "string list list option"
  checkpoint_file :: "checkpoint option"
  stdout :: "string list"
  resume_name_found :: bool

definition print :: "string \<Rightarrow> 'w state \<Rightarrow> 'w state" where
  "print line st = st\<lparr>stdout := stdout st @ [line]\<rparr>"

subsection \<open>The output file and the checkpoint file (lines 136-167)\<close>

definition load_checkpoint :: "'w state \<Rightarrow> checkpoint option" where
  "load_checkpoint st = checkpoint_file st"

definition save_checkpoint :: "string \<Rightarrow> string \<Rightarrow> int \<Rightarrow> 'w state \<Rightarrow> 'w state" where
  "save_checkpoint category subcategory exhibitor_index st =
     st\<lparr>checkpoint_file := Some \<lparr>ck_category = Some category,
        ck_subcategory = Some subcategory, ck_exhibitor_index = Some exhibitor_index\<rparr>\<rparr>"

definition init_csv :: "'w state \<Rightarrow> 'w state" where
  "init_csv st =
     (case output_csv st of
        Some rows \<Rightarrow> st
      | None \<Rightarrow> st\<lparr>output_csv := Some [CSV_HEADERS]\<rparr>)"

text \<open>Opening a file in mode \<open>a\<close> creates it when it does not exist.\<close>

definition append_row :: "string list \<Rightarrow> 'w state \<Rightarrow> 'w state" where
  "append_row row st =
     st\<lparr>output_csv := Some ((case output_csv st of None \<Rightarrow> [] | Some rows \<Rightarrow> rows) @ [row])\<rparr>"

subsection \<open>Navigation with retries (lines 53-62)\<close>

text \<open>
  \<open>safe_goto_from\<close> is the \<open>while True\<close> loop with the local variable \<open>attempt\<close>;
  \<open>safe_goto\<close> enters it with \<open>attempt = 0\<close>.
\<close>

function safe_goto_from :: "'w driver \<Rightarrow> string \<Rightarrow> int \<Rightarrow> int \<Rightarrow> 'w \<Rightarrow> (error + unit) \<times> 'w" where
  "safe_goto_from d target retries attempt w =
     (case goto d target w of
        (Inr _, w') \<Rightarrow> (Inr (), w')
      | (Inl e, w') \<Rightarrow>
          if attempt + 1 > retries then (Inl e, w')
          else safe_goto_from d target retries (attempt + 1) w')"
  by pat_completeness auto
termination
  by (relation "measure (\<lambda>(d, target, retries, attempt, w). nat (retries - attempt))") auto

declare safe_goto_from.simps [simp del]

definition safe_goto :: "'w driver \<Rightarrow> string \<Rightarrow> int \<Rightarrow> 'w \<Rightarrow> (error + unit) \<times> 'w" where
  "safe_goto d target retries w = safe_goto_from d target retries 0 w"

subsection \<open>The phone pattern (line 108)\<close>

text \<open>
  A backtracking matcher in the style of Python's \<open>re\<close>: a pattern maps the input to the
  list of inputs that remain after each way of matching a prefix, in the order in which
  the matcher tries them. Greedy operators put the longer match first.
\<close>

type_synonym matcher = "string \<Rightarrow> string list"

definition re_class :: "(char \<Rightarrow> bool) \<Rightarrow> matcher" where
  "re_class P s = (case s of [] \<Rightarrow> [] | c # cs \<Rightarrow> if P c then [cs] else [])"

definition re_seq :: "matcher \<Rightarrow> matcher \<Rightarrow> matcher" where
  "re_seq m1 m2 s = concat (map m2 (m1 s))"

definition re_opt :: "matcher \<Rightarrow> matcher" where
  "re_opt m s = m s @ [s]"

fun re_class_star :: "(char \<Rightarrow> bool) \<Rightarrow> matcher" where
  "re_class_star P [] = [[]]"
| "re_class_star P (c # cs) = (if P c then re_class_star P cs @ [c # cs] else [c # cs])"

fun re_class_at_least :: "nat \<Rightarrow> (char \<Rightarrow> bool) \<Rightarrow> matcher" where
  "re_class_at_least 0 P = re_class_star P"
| "re_class_at_least (Suc n) P = re_seq (re_class P) (re_class_at_least n P)"

text \<open>
  \<open>re.search\<close>: the match at the first position where the pattern matches, and there
  the first way of matching.
\<close>

fun re_search :: "matcher \<Rightarrow> string \<Rightarrow> string option" where
  "re_search m [] = (case m [] of [] \<Rightarrow> None | r # _ \<Rightarrow> Some [])"
| "re_search m (c # cs) =
     (case m (c # cs) of
        [] \<Rightarrow> re_search m cs
      | r # _ \<Rightarrow> Some (take (length (c # cs) - length r) (c # cs)))"

definition is_digit :: "char \<Rightarrow> bool" where
  "is_digit c = (c \<in> set ''0123456789'')"

text \<open>The class \<open>[\d\-(). ]\<close>.\<close>

definition phone_char :: "char \<Rightarrow> bool" where
  "phone_char c = (is_digit c \<or> c \<in> set ''-(). '')"

text \<open>The pattern \<open>(\+?\d[\d\-(). ]{6,}\d)\<close>; its group is the whole match.\<close>

definition phone_re :: matcher where
  "phone_re =
     re_seq (re_opt (re_class (\<lambda>c. c = CHR ''+'')))
       (re_seq (re_class is_digit)
          (re_seq (re_class_at_least 6 phone_char) (re_class is_digit)))"

definition extract_phone :: "string \<Rightarrow> string" where
  "extract_phone contact_text =
     (case re_search phone_re contact_text of
        Some m \<Rightarrow> str_strip m
      | None \<Rightarrow> [])"

subsection \<open>Reading the pages (lines 65-133)\<close>

definition extract_link_text_pairs ::
  "'w driver \<Rightarrow> string \<Rightarrow> 'w \<Rightarrow> (error + Category list) \<times> 'w" where
  "extract_link_text_pairs d selector w =
     (case link_elements d selector w of
        (Inl e, w') \<Rightarrow> (Inl e, w')
      | (Inr elements, w') \<Rightarrow>
          (Inr (concat (map (\<lambda>(href, text).
                  case href of
                    None \<Rightarrow> []
                  | Some h \<Rightarrow>
                      if h = [] then []
                      else [\<lparr>name = str_strip (or_empty text), url = urljoin d BASE_URL h\<rparr>])
                elements)), w'))"

definition count_exhibitor_cards :: "'w driver \<Rightarrow> 'w \<Rightarrow> (error + nat) \<times> 'w" where
  "count_exhibitor_cards d w =
     (case wait_for_selector d EXHIBITOR_LINK_SELECTOR w of
        (Inl e, w') \<Rightarrow> (Inl e, w')
      | (Inr _, w') \<Rightarrow> (case card_count d w' of (n, w'') \<Rightarrow> (Inr n, w'')))"

text \<open>Lines 93-121: the six fields computed from what the page shows.\<close>

definition stripped_texts :: "string option list \<Rightarrow> string list" where
  "stripped_texts ts = filter (\<lambda>l. l \<noteq> []) (map (\<lambda>t. str_strip (or_empty t)) ts)"

definition first_stripped :: "string option list \<Rightarrow> string" where
  "first_stripped ts = (case ts of [] \<Rightarrow> [] | t # _ \<Rightarrow> str_strip (or_empty t))"

definition page_fields :: "raw_page \<Rightarrow> details" where
  "page_fields raw =
     \<lparr>company_name = str_strip (or_empty (exhibitor_name_text raw)),
      address = join '', '' (stripped_texts (address_p_texts raw)),
      website = first_stripped (website_hrefs raw),
      phone = extract_phone (contact_inner_text raw),
      description = first_stripped (description_texts raw),
      booth = join ''; '' (stripped_texts (booth_link_texts raw))\<rparr>"

text \<open>Lines 123-133: \<open>None\<close> unless all six fields are non-empty.\<close>

definition complete_details :: "details \<Rightarrow> details option" where
  "complete_details f =
     (if \<not> (company_name f \<noteq> [] \<and> address f \<noteq> [] \<and> website f \<noteq> [] \<and> phone f \<noteq> []
            \<and> description f \<noteq> [] \<and> booth f \<noteq> [])
      then None
      else Some f)"

definition extract_exhibitor_details :: "'w driver \<Rightarrow> 'w \<Rightarrow> (error + details option) \<times> 'w" where
  "extract_exhibitor_details d w =
     (case wait_for_selector d ''.exhibitor-name'' w of
        (Inl e, w') \<Rightarrow> (Inl e, w')
      | (Inr _, w') \<Rightarrow>
          (case read_detail_page d w' of
             (Inl e, w'') \<Rightarrow> (Inl e, w'')
           | (Inr raw, w'') \<Rightarrow> (Inr (complete_details (page_fields raw)), w'')))"

subsection \<open>Resume settings (lines 182-188)\<close>

record resume =
  resume_category :: "string option"
  resume_subcategory :: "string option"
  resume_exhibitor_index :: int
  resume_mode :: bool
  resume_after_name :: string

definition truthy :: "string option \<Rightarrow> bool" where
  "truthy x = (case x of None \<Rightarrow> False | Some s \<Rightarrow> s \<noteq> [])"

text \<open>
  \<open>loaded\<close> is what \<open>_load_checkpoint\<close> returned and \<open>target\<close> the configured company
  name, in the program the constant \<open>RESUME_AFTER_COMPANY_NAME\<close>.
\<close>

definition resume_settings :: "bool \<Rightarrow> string \<Rightarrow> checkpoint option \<Rightarrow> resume" where
  "resume_settings fresh target loaded =
     (let ck = (if fresh then \<lparr>ck_category = None, ck_subcategory = None, ck_exhibitor_index = None\<rparr>
                else (case loaded of
                        None \<Rightarrow> \<lparr>ck_category = None, ck_subcategory = None, ck_exhibitor_index = None\<rparr>
                      | Some c \<Rightarrow> c))
      in \<lparr>resume_category = ck_category ck,
          resume_subcategory = ck_subcategory ck,
          resume_exhibitor_index = (case ck_exhibitor_index ck of None \<Rightarrow> 0 | Some n \<Rightarrow> n),
          resume_mode = (truthy (ck_category ck) \<and> truthy (ck_subcategory ck)),
          resume_after_name = (if fresh then [] else str_lower (str_strip target))\<rparr>)"

subsection \<open>One exhibitor (lines 272-353)\<close>

text \<open>
  How an iteration of the exhibitor loop ends: it falls through or executes \<open>continue\<close>
  (\<open>Next\<close>), executes \<open>break\<close>, or raises.
\<close>

datatype flow = Next | Break | Raise error

text \<open>Lines 328-331 and again lines 350-353.\<close>

definition back_and_checkpoint ::
  "'w driver \<Rightarrow> Category \<Rightarrow> Category \<Rightarrow> int \<Rightarrow> 'w state \<Rightarrow> flow \<times> int \<times> 'w state" where
  "back_and_checkpoint d category subcategory exhibitor_index st =
     (case go_back d (world st) of
        (Inl e, w) \<Rightarrow> (Raise e, exhibitor_index, st\<lparr>world := w\<rparr>)
      | (Inr _, w) \<Rightarrow>
          (Next, exhibitor_index + 1,
           save_checkpoint (name category) (name subcategory) (exhibitor_index + 1)
             (st\<lparr>world := wait_for_timeout d 1000 w\<rparr>)))"

text \<open>Lines 315-353: what the loop does with the result of the extraction.\<close>

definition record_exhibitor ::
  "'w driver \<Rightarrow> resume \<Rightarrow> Category \<Rightarrow> Category \<Rightarrow> details option \<Rightarrow> bool \<Rightarrow> int \<Rightarrow> 'w state
     \<Rightarrow> flow \<times> int \<times> 'w state" where
  "record_exhibitor d r category subcategory found timed_out exhibitor_index st =
     (case found of
        None \<Rightarrow>
          back_and_checkpoint d category subcategory exhibitor_index
            (if \<not> timed_out
             then print (''Skipping exhibitor '' @ page_url d (world st) @ '' due to missing fields'') st
             else st)
      | Some det \<Rightarrow>
          if \<not> resume_name_found st then
            back_and_checkpoint d category subcategory exhibitor_index
              (if str_lower (str_strip (company_name det)) = resume_after_name r
               then print (''Found resume company '' @ str_strip (company_name det) @ '', continuing'')
                      (st\<lparr>resume_name_found := True\<rparr>)
               else st)
          else
            back_and_checkpoint d category subcategory exhibitor_index
              (print (''Exhibitor '' @ company_name det @ '' | '' @ booth det @ '' | '' @ phone det)
                 (append_row [name category, name subcategory, company_name det, address det,
                    website det, phone det, description det, booth det] st)))"

text \<open>Lines 307-353: the extraction in its \<open>try\<close> block, then the recording.\<close>

definition extract_and_record ::
  "'w driver \<Rightarrow> resume \<Rightarrow> Category \<Rightarrow> Category \<Rightarrow> int \<Rightarrow> 'w state \<Rightarrow> flow \<times> int \<times> 'w state" where
  "extract_and_record d r category subcategory exhibitor_index st =
     (case extract_exhibitor_details d (world st) of
        (Inl e, w) \<Rightarrow>
          record_exhibitor d r category subcategory None True exhibitor_index
            (print (''Skipping exhibitor '' @ page_url d w @ '' due to timeout'') (st\<lparr>world := w\<rparr>))
      | (Inr found, w) \<Rightarrow>
          record_exhibitor d r category subcategory found False exhibitor_index (st\<lparr>world := w\<rparr>))"

text \<open>
  Lines 272-353: one iteration, from the values of \<open>exhibitor_index\<close> and
  \<open>seen_exhibitors\<close> before it to their values after it.
\<close>

definition exhibitor_step ::
  "'w driver \<Rightarrow> resume \<Rightarrow> Category \<Rightarrow> Category \<Rightarrow> int \<Rightarrow> string set \<Rightarrow> 'w state
     \<Rightarrow> flow \<times> int \<times> string set \<times> 'w state" where
  "exhibitor_step d r category subcategory exhibitor_index seen_exhibitors st =
     (case card_count d (world st) of (n, w1) \<Rightarrow>
        if exhibitor_index \<ge> int n then (Break, exhibitor_index, seen_exhibitors, st\<lparr>world := w1\<rparr>)
        else
          (case card_link_count d exhibitor_index (dismiss_overlay d w1) of (link_count, w2) \<Rightarrow>
             if link_count = 0
             then (Next, exhibitor_index + 1, seen_exhibitors, st\<lparr>world := w2\<rparr>)
             else
               (case card_link_href d exhibitor_index w2 of
                  (Inl e, w3) \<Rightarrow> (Raise e, exhibitor_index, seen_exhibitors, st\<lparr>world := w3\<rparr>)
                | (Inr h, w3) \<Rightarrow>
                    if or_empty h \<in> seen_exhibitors
                    then (Next, exhibitor_index + 1, seen_exhibitors, st\<lparr>world := w3\<rparr>)
                    else
                      (case click_card_link d exhibitor_index w3 of
                         (Inl e, w4) \<Rightarrow>
                           (Raise e, exhibitor_index, insert (or_empty h) seen_exhibitors,
                            st\<lparr>world := w4\<rparr>)
                       | (Inr _, w4) \<Rightarrow>
                           (case extract_and_record d r category subcategory exhibitor_index
                                   (st\<lparr>world := wait_for_timeout d 500 w4\<rparr>) of
                              (f, i, st') \<Rightarrow> (f, i, insert (or_empty h) seen_exhibitors, st'))))))"

subsection \<open>The loops (lines 223-355)\<close>

text \<open>
  The \<open>while\<close> loop of lines 271-353. It returns the final \<open>exhibitor_index\<close>, or the
  error that an iteration raised.
\<close>

function exhibitor_loop ::
  "'w driver \<Rightarrow> resume \<Rightarrow> Category \<Rightarrow> Category \<Rightarrow> nat \<Rightarrow> int \<Rightarrow> string set \<Rightarrow> 'w state
     \<Rightarrow> (error + int) \<times> 'w state" where
  "exhibitor_loop d r category subcategory exhibitor_count exhibitor_index seen_exhibitors st =
     (if exhibitor_index < int exhibitor_count then
        (case exhibitor_step d r category subcategory exhibitor_index seen_exhibitors st of
           (Next, i, seen', st') \<Rightarrow>
             exhibitor_loop d r category subcategory exhibitor_count i seen' st'
         | (Break, i, seen', st') \<Rightarrow> (Inr i, st')
         | (Raise e, i, seen', st') \<Rightarrow> (Inl e, st'))
      else (Inr exhibitor_index, st))"
  by pat_completeness auto
termination
  by (relation "measure (\<lambda>(d, r, category, subcategory, exhibitor_count, exhibitor_index, seen, st).
        nat (int exhibitor_count - exhibitor_index))")
     (auto simp: exhibitor_step_def extract_and_record_def record_exhibitor_def back_and_checkpoint_def
           split: prod.splits if_splits sum.splits option.splits)

declare exhibitor_loop.simps [simp del]

text \<open>Lines 267-269.\<close>

definition start_index :: "resume \<Rightarrow> Category \<Rightarrow> Category \<Rightarrow> int" where
  "start_index r category subcategory =
     (if resume_mode r \<and> Some (name category) = resume_category r
         \<and> Some (name subcategory) = resume_subcategory r
      then resume_exhibitor_index r
      else 0)"

text \<open>Lines 252-355: the body of the subcategory loop after its skip test.\<close>

definition visit_subcategory ::
  "'w driver \<Rightarrow> resume \<Rightarrow> Category \<Rightarrow> Category \<Rightarrow> 'w state \<Rightarrow> (error + unit) \<times> 'w state" where
  "visit_subcategory d r category subcategory st =
     (case safe_goto d (url subcategory) 2 (world st) of
        (Inl e, w) \<Rightarrow> (Inl e, st\<lparr>world := w\<rparr>)
      | (Inr _, w) \<Rightarrow>
          (case count_exhibitor_cards d (wait_for_timeout d 1000 w) of
             (Inl e, w') \<Rightarrow>
               (Inr (), save_checkpoint (name category) (name subcategory) 0
                  (print (''Subcategory '' @ name subcategory @ '' has 0 exhibitors (no cards)'')
                     (st\<lparr>world := w'\<rparr>)))
           | (Inr exhibitor_count, w') \<Rightarrow>
               (case exhibitor_loop d r category subcategory exhibitor_count
                       (start_index r category subcategory) {}
                       (print (''Subcategory '' @ name subcategory @ '' has '' @ str_nat exhibitor_count
                            @ '' exhibitors'') (st\<lparr>world := w'\<rparr>)) of
                  (Inl e, st') \<Rightarrow> (Inl e, st')
                | (Inr exhibitor_index, st') \<Rightarrow>
                    (Inr (), save_checkpoint (name category) (name subcategory) exhibitor_index st'))))"

text \<open>
  The \<open>for\<close> loop of lines 246-355 over the subcategories that remain, with the flag
  \<open>subcategory_started\<close>.
\<close>

fun subcategory_loop ::
  "'w driver \<Rightarrow> resume \<Rightarrow> Category \<Rightarrow> bool \<Rightarrow> Category list \<Rightarrow> 'w state
     \<Rightarrow> (error + unit) \<times> 'w state" where
  "subcategory_loop d r category subcategory_started [] st = (Inr (), st)"
| "subcategory_loop d r category subcategory_started (subcategory # rest) st =
     (if resume_mode r \<and> Some (name category) = resume_category r \<and> \<not> subcategory_started then
        subcategory_loop d r category
          (if Some (name subcategory) = resume_subcategory r then True else subcategory_started)
          rest st
      else
        (case visit_subcategory d r category subcategory st of
           (Inl e, st') \<Rightarrow> (Inl e, st')
         | (Inr _, st') \<Rightarrow> subcategory_loop d r category subcategory_started rest st'))"

text \<open>Lines 231-355: the body of the category loop after its skip test.\<close>

definition visit_category ::
  "'w driver \<Rightarrow> resume \<Rightarrow> Category \<Rightarrow> 'w state \<Rightarrow> (error + unit) \<times> 'w state" where
  "visit_category d r category st =
     (case safe_goto d (url category) 2 (world st) of
        (Inl e, w) \<Rightarrow> (Inl e, st\<lparr>world := w\<rparr>)
      | (Inr _, w) \<Rightarrow>
          (case wait_for_selector d SUBCATEGORY_LINK_SELECTOR (wait_for_timeout d 1000 w) of
             (Inl e, w') \<Rightarrow>
               (Inr (), print (''Category '' @ name category @ '' has 0 subcategories (no table rows)'')
                  (st\<lparr>world := w'\<rparr>))
           | (Inr _, w') \<Rightarrow>
               (case extract_link_text_pairs d SUBCATEGORY_LINK_SELECTOR w' of
                  (Inl e, w'') \<Rightarrow> (Inl e, st\<lparr>world := w''\<rparr>)
                | (Inr found, w'') \<Rightarrow>
                    (let subcategories = filter (\<lambda>subcategory. name subcategory \<noteq> VIEW_ALL_LABEL) found
                     in subcategory_loop d r category
                          (\<not> resume_mode r \<or> Some (name category) \<noteq> resume_category r)
                          subcategories
                          (print (''Category '' @ name category @ '' has ''
                               @ str_nat (length subcategories) @ '' subcategories'')
                             (st\<lparr>world := w''\<rparr>))))))"

text \<open>
  The \<open>for\<close> loop of lines 224-355 over the categories that remain, with the flag
  \<open>category_started\<close>.
\<close>

fun category_loop ::
  "'w driver \<Rightarrow> resume \<Rightarrow> bool \<Rightarrow> Category list \<Rightarrow> 'w state \<Rightarrow> (error + unit) \<times> 'w state" where
  "category_loop d r category_started [] st = (Inr (), st)"
| "category_loop d r category_started (category # rest) st =
     (if \<not> category_started \<and> Some (name category) \<noteq> resume_category r then
        category_loop d r category_started rest st
      else
        (case visit_category d r category st of
           (Inl e, st') \<Rightarrow> (Inl e, st')
         | (Inr _, st') \<Rightarrow> category_loop d r True rest st'))"

subsection \<open>The listing modes (lines 197-221)\<close>

fun list_subcategories_loop :: "'w driver \<Rightarrow> Category list \<Rightarrow> 'w state \<Rightarrow> (error + unit) \<times> 'w state" where
  "list_subcategories_loop d [] st = (Inr (), st)"
| "list_subcategories_loop d (category # rest) st =
     (case safe_goto d (url category) 2 (world st) of
        (Inl e, w) \<Rightarrow> (Inl e, st\<lparr>world := w\<rparr>)
      | (Inr _, w) \<Rightarrow>
          (case wait_for_selector d SUBCATEGORY_LINK_SELECTOR (wait_for_timeout d 1000 w) of
             (Inl e, w') \<Rightarrow>
               list_subcategories_loop d rest
                 (print (name category @ '': 0 subcategories'') (st\<lparr>world := w'\<rparr>))
           | (Inr _, w') \<Rightarrow>
               (case extract_link_text_pairs d SUBCATEGORY_LINK_SELECTOR w' of
                  (Inl e, w'') \<Rightarrow> (Inl e, st\<lparr>world := w''\<rparr>)
                | (Inr found, w'') \<Rightarrow>
                    (let subcategories = filter (\<lambda>subcategory. name subcategory \<noteq> VIEW_ALL_LABEL) found
                     in list_subcategories_loop d rest
                          (fold (\<lambda>subcategory. print (''- '' @ name subcategory)) subcategories
                             (print (name category @ '': '' @ str_nat (length subcategories)
                                  @ '' subcategories'') (st\<lparr>world := w''\<rparr>)))))))"

subsection \<open>The program (lines 170-358)\<close>

text \<open>
  Lines 181-188, the start of \<open>run\<close>: \<open>_init_csv\<close>, the settings read from the
  checkpoint and the flag \<open>resume_name_found = not resume_after_name\<close>. The module
  constant \<open>RESUME_AFTER_COMPANY_NAME\<close> is the argument \<open>target\<close>, so that the
  properties of the name gate can be stated for every configured name.
\<close>

definition settle :: "bool \<Rightarrow> string \<Rightarrow> 'w state \<Rightarrow> resume \<times> 'w state" where
  "settle fresh target st0 =
     (let st1 = init_csv st0;
          r = resume_settings fresh target (load_checkpoint st1)
      in (r, st1\<lparr>resume_name_found := (resume_after_name r = [])\<rparr>))"

text \<open>
  The body of \<open>run\<close> (lines 181-358) with the same argument \<open>target\<close>, and \<open>run\<close>
  itself, which takes the constant for it.
\<close>

definition run_with ::
  "string \<Rightarrow> 'w driver \<Rightarrow> bool \<Rightarrow> bool \<Rightarrow> bool \<Rightarrow> 'w state \<Rightarrow> (error + unit) \<times> 'w state" where
  "run_with target d list_categories list_subcategories fresh st0 =
     (case settle fresh target st0 of (r, st2) \<Rightarrow>
        case safe_goto d START_URL 2 (world st2) of
           (Inl e, w) \<Rightarrow> (Inl e, st2\<lparr>world := w\<rparr>)
         | (Inr _, w) \<Rightarrow>
             (case wait_for_selector d CATEGORY_LINK_SELECTOR (wait_for_timeout d 1500 w) of
                (Inl e, w') \<Rightarrow> (Inl e, st2\<lparr>world := w'\<rparr>)
              | (Inr _, w') \<Rightarrow>
                  (case extract_link_text_pairs d CATEGORY_LINK_SELECTOR w' of
                     (Inl e, w'') \<Rightarrow> (Inl e, st2\<lparr>world := w''\<rparr>)
                   | (Inr found, w'') \<Rightarrow>
                       (let categories = filter (\<lambda>category. name category \<noteq> VIEW_ALL_LABEL) found;
                            st3 = print (''Found '' @ str_nat (length categories) @ '' categories'')
                                    (st2\<lparr>world := w''\<rparr>)
                        in if list_categories then
                             (let st4 = fold (\<lambda>category. print (name category)) categories st3
                              in (Inr (), st4\<lparr>world := close d (world st4)\<rparr>))
                           else if list_subcategories then
                             (case list_subcategories_loop d categories st3 of
                                (Inl e, st4) \<Rightarrow> (Inl e, st4)
                              | (Inr _, st4) \<Rightarrow> (Inr (), st4\<lparr>world := close d (world st4)\<rparr>))
                           else
                             (case category_loop d r (\<not> resume_mode r) categories st3 of
                                (Inl e, st4) \<Rightarrow> (Inl e, st4)
                              | (Inr _, st4) \<Rightarrow> (Inr (), st4\<lparr>world := close d (world st4)\<rparr>))))))"

definition run :: "'w driver \<Rightarrow> bool \<Rightarrow> bool \<Rightarrow> bool \<Rightarrow> 'w state \<Rightarrow> (error + unit) \<times> 'w state" where
  "run d list_categories list_subcategories fresh st0 =
     run_with RESUME_AFTER_COMPANY_NAME d list_categories list_subcategories fresh st0"

subsection \<open>A static site for the examples\<close>

text \<open>
  A browser on a site whose pages do not change: each page has its link elements, its
  exhibitor cards (each card with the \<open>href\<close> attributes of its detail links) and, when
  it is a detail page, what the extractor reads there. The browser records every address
  it loads, and its first \<open>failures\<close> page loads time out.
\<close>

record site =
  links_at :: "string \<Rightarrow> (string option \<times> string option) list"
  cards_at :: "string \<Rightarrow> string option list list"
  detail_at :: "string \<Rightarrow> raw_page option"

record browser =
  location :: string
  history :: "string list"
  visited :: "string list"
  failures :: nat

definition card_links :: "site \<Rightarrow> browser \<Rightarrow> int \<Rightarrow> string option list" where
  "card_links s w i =
     (if 0 \<le> i \<and> nat i < length (cards_at s (location w)) then cards_at s (location w) ! nat i
      else [])"

definition load :: "string \<Rightarrow> browser \<Rightarrow> browser" where
  "load target w = w\<lparr>location := target, history := location w # history w, visited := visited w @ [target]\<rparr>"

definition site_driver :: "site \<Rightarrow> browser driver" where
  "site_driver s =
     \<lparr>goto = (\<lambda>target w.
        if failures w > 0 then (Inl PlaywrightTimeoutError, w\<lparr>failures := failures w - 1\<rparr>)
        else (Inr (), load target w)),
      wait_for_timeout = (\<lambda>ms w. w),
      wait_for_selector = (\<lambda>selector w.
        if (selector = CATEGORY_LINK_SELECTOR \<and> links_at s (location w) \<noteq> [])
           \<or> (selector = EXHIBITOR_LINK_SELECTOR \<and> cards_at s (location w) \<noteq> [])
           \<or> (selector = ''.exhibitor-name'' \<and> detail_at s (location w) \<noteq> None)
        then (Inr (), w)
        else (Inl PlaywrightTimeoutError, w)),
      link_elements = (\<lambda>selector w. (Inr (links_at s (location w)), w)),
      urljoin = (\<lambda>base href. href),
      card_count = (\<lambda>w. (length (cards_at s (location w)), w)),
      dismiss_overlay = (\<lambda>w. w),
      card_link_count = (\<lambda>i w. (length (card_links s w i), w)),
      card_link_href = (\<lambda>i w.
        case card_links s w i of
          [] \<Rightarrow> (Inl PlaywrightTimeoutError, w)
        | h # _ \<Rightarrow> (Inr h, w)),
      click_card_link = (\<lambda>i w.
        case card_links s w i of
          [] \<Rightarrow> (Inl PlaywrightTimeoutError, w)
        | h # _ \<Rightarrow> (Inr (), load (or_empty h) w)),
      read_detail_page = (\<lambda>w.
        case detail_at s (location w) of
          None \<Rightarrow> (Inl PlaywrightTimeoutError, w)
        | Some raw \<Rightarrow> (Inr raw, w)),
      page_url = location,
      go_back = (\<lambda>w.
        case history w of
          [] \<Rightarrow> (Inl PlaywrightTimeoutError, w)
        | previous # older \<Rightarrow> (Inr (), w\<lparr>location := previous, history := older\<rparr>)),
      close = (\<lambda>w. w)\<rparr>"

definition blank :: browser where
  "blank = \<lparr>location = [], history = [], visited = [], failures = 0\<rparr>"

definition initial :: "string list list option \<Rightarrow> checkpoint option \<Rightarrow> browser state" where
  "initial csv_file ck =
     \<lparr>world = blank, output_csv = csv_file, checkpoint_file = ck, stdout = [],
      resume_name_found = False\<rparr>"

definition empty_site :: site where
  "empty_site = \<lparr>links_at = (\<lambda>u. []), cards_at = (\<lambda>u. []), detail_at = (\<lambda>u. None)\<rparr>"

definition flaky :: "nat \<Rightarrow> browser" where
  "flaky n = blank\<lparr>failures := n\<rparr>"

text \<open>
  A site with two categories, a link without address and a \<open>View All Exhibitors\<close> link.
  The first subcategory of A lists six cards: the second repeats the first, the third has
  no detail link, the fourth is the company of \<open>RESUME_AFTER_COMPANY_NAME\<close>, the fifth
  lacks a phone number and the sixth has no detail page.
\<close>

definition acme :: raw_page where
  "acme = \<lparr>exhibitor_name_text = Some '' Acme '',
     address_p_texts = [Some ''1 Main St'', None, Some '' '', Some ''Town''],
     website_hrefs = [Some ''http://acme.example''],
     contact_inner_text = ''Suite 12. Phone +1 (555) 123-4567 or 555 000 1111'',
     description_texts = [Some ''Makes things''],
     booth_link_texts = [Some ''N1'', Some '' '', Some ''S2'']\<rparr>"

definition demo_site :: site where
  "demo_site =
     \<lparr>links_at = (\<lambda>u.
        if u = START_URL then [(Some ''A'', Some ''A''), (None, Some ''no link''),
             (Some ''all'', Some ''View All Exhibitors''), (Some ''B'', Some '' B '')]
        else if u = ''A'' then [(Some ''A/1'', Some ''S1'')]
        else if u = ''B'' then [(Some ''B/1'', Some ''S1''), (Some ''B/2'', Some ''S2'')]
        else []),
      cards_at = (\<lambda>u.
        if u = ''A/1'' then [[Some ''x1''], [Some ''x1''], [], [Some ''x2''], [Some ''x3''], [Some ''x4'']]
        else if u = ''B/2'' then [[Some ''x1'']]
        else []),
      detail_at = (\<lambda>u.
        if u = ''x1'' then Some acme
        else if u = ''x2'' then Some (acme\<lparr>exhibitor_name_text := Some ''STEDMAN Machine company''\<rparr>)
        else if u = ''x3'' then Some (acme\<lparr>contact_inner_text := ''no phone''\<rparr>)
        else None)\<rparr>"

definition demo_resume :: resume where
  "demo_resume = resume_settings False RESUME_AFTER_COMPANY_NAME None"

definition cat_A :: Category where "cat_A = \<lparr>name = ''A'', url = ''A''\<rparr>"
definition sub_A1 :: Category where "sub_A1 = \<lparr>name = ''S1'', url = ''A/1''\<rparr>"

definition at_page :: "string \<Rightarrow> browser state" where
  "at_page u = (initial (Some [CSV_HEADERS]) None)\<lparr>world := load u blank\<rparr>"

definition cat_B :: Category where "cat_B = \<lparr>name = ''B'', url = ''B''\<rparr>"
definition sub_B2 :: Category where "sub_B2 = \<lparr>name = ''S2'', url = ''B/2''\<rparr>"





text \<open>
  A site whose two category links carry the same text, each category with three
  subcategories and no exhibitor card anywhere.
\<close>

definition twin_site :: site where
  "twin_site =
     \<lparr>links_at = (\<lambda>u.
        if u = START_URL then [(Some ''b1'', Some ''B''), (Some ''b2'', Some ''B'')]
        else if u = ''b1'' then [(Some ''b1/1'', Some ''S1''), (Some ''b1/2'', Some ''S2''), (Some ''b1/3'', Some ''S3'')]
        else if u = ''b2'' then [(Some ''b2/1'', Some ''S1''), (Some ''b2/2'', Some ''S2''), (Some ''b2/3'', Some ''S3'')]
        else []),
      cards_at = (\<lambda>u. []),
      detail_at = (\<lambda>u. None)\<rparr>"

text \<open>
  The settings when the checkpoint (B, S2, 3) is loaded, one more subcategory of the site
  of the examples, and a state in which both files exist.
\<close>

definition resume_B2 :: resume where
  "resume_B2 = resume_settings False RESUME_AFTER_COMPANY_NAME (Some (resumed ''B'' ''S2'' 3))"

definition sub_B1 :: Category where "sub_B1 = \<lparr>name = ''S1'', url = ''B/1''\<rparr>"

definition kept :: "browser state" where
  "kept = initial (Some [CSV_HEADERS, [''a row'']]) (Some (resumed ''B'' ''S2'' 3))"



text \<open>
  A site with three categories for a run that resumes from the checkpoint (B, S2, 3): B
  has the subcategories S1, S2 and S3, the category C after it has subcategories of the
  same names S1 and S2, and only B/S2 lists exhibitor cards, five of them.
\<close>

definition scenario_site :: site where
  "scenario_site =
     \<lparr>links_at = (\<lambda>u.
        if u = START_URL then [(Some ''A'', Some ''A''), (Some ''B'', Some ''B''), (Some ''C'', Some ''C'')]
        else if u = ''A'' then [(Some ''A/1'', Some ''S1'')]
        else if u = ''B'' then [(Some ''B/1'', Some ''S1''), (Some ''B/2'', Some ''S2''), (Some ''B/3'', Some ''S3'')]
        else if u = ''C'' then [(Some ''C/1'', Some ''S1''), (Some ''C/2'', Some ''S2'')]
        else []),
      cards_at = (\<lambda>u.
        if u = ''B/2'' then [[Some ''x1''], [Some ''x2''], [Some ''x3''], [Some ''x4''], [Some ''x5'']]
        else []),
      detail_at = (\<lambda>u. if u \<in> set [''x1'', ''x2'', ''x3'', ''x4'', ''x5''] then Some acme else None)\<rparr>"

definition sub_B3 :: Category where "sub_B3 = \<lparr>name = ''S3'', url = ''B/3''\<rparr>"
definition cat_C :: Category where "cat_C = \<lparr>name = ''C'', url = ''C''\<rparr>"

subsection \<open>Notions used to state the properties\<close>

text \<open>
  The exhibitor loop cut off after \<open>k\<close> iterations of its body: \<open>None\<close> when the loop
  would go on.
\<close>

fun exhibitor_loop_within ::
  "nat \<Rightarrow> 'w driver \<Rightarrow> resume \<Rightarrow> Category \<Rightarrow> Category \<Rightarrow> nat \<Rightarrow> int \<Rightarrow> string set \<Rightarrow> 'w state
     \<Rightarrow> ((error + int) \<times> 'w state) option" where
  "exhibitor_loop_within 0 d r category subcategory exhibitor_count exhibitor_index seen st =
     (if exhibitor_index < int exhibitor_count then None else Some (Inr exhibitor_index, st))"
| "exhibitor_loop_within (Suc k) d r category subcategory exhibitor_count exhibitor_index seen st =
     (if exhibitor_index < int exhibitor_count then
        (case exhibitor_step d r category subcategory exhibitor_index seen st of
           (Next, i, seen', st') \<Rightarrow>
             exhibitor_loop_within k d r category subcategory exhibitor_count i seen' st'
         | (Break, i, seen', st') \<Rightarrow> Some (Inr i, st')
         | (Raise e, i, seen', st') \<Rightarrow> Some (Inl e, st'))
      else Some (Inr exhibitor_index, st))"



text \<open>
  Whether a page load raises in page state \<open>w\<close>, and the page state after \<open>k\<close>
  successive loads of the same address.
\<close>

definition load_fails :: "'w driver \<Rightarrow> string \<Rightarrow> 'w \<Rightarrow> bool" where
  "load_fails d target w = (case goto d target w of (Inl e, w') \<Rightarrow> True | (Inr u, w') \<Rightarrow> False)"

definition after_loads :: "'w driver \<Rightarrow> string \<Rightarrow> nat \<Rightarrow> 'w \<Rightarrow> 'w" where
  "after_loads d target k w = ((\<lambda>w. snd (goto d target w)) ^^ k) w"







text \<open>
  The link targets of a list of cards, each card given by the \<open>href\<close> attributes of its
  detail links: all of them, and those that are met for the first time, not counting the
  targets in \<open>seen\<close>, in the order of the cards.
\<close>

fun first_targets :: "string set \<Rightarrow> string option list list \<Rightarrow> string list" where
  "first_targets seen [] = []"
| "first_targets seen (links # rest) =
     (case links of
        [] \<Rightarrow> first_targets seen rest
      | h # _ \<Rightarrow>
          if or_empty h \<in> seen then first_targets seen rest
          else or_empty h # first_targets (insert (or_empty h) seen) rest)"

definition link_targets :: "string option list list \<Rightarrow> string set" where
  "link_targets cards = set (map (\<lambda>links. or_empty (hd links)) (filter (\<lambda>links. links \<noteq> []) cards))"

text \<open>
  The subcategory loop and the category loop without their skip tests: every element of
  the list is visited, in order, until a visit raises.
\<close>

fun visit_every_subcategory ::
  "'w driver \<Rightarrow> resume \<Rightarrow> Category \<Rightarrow> Category list \<Rightarrow> 'w state \<Rightarrow> (error + unit) \<times> 'w state" where
  "visit_every_subcategory d r category [] st = (Inr (), st)"
| "visit_every_subcategory d r category (subcategory # rest) st =
     (case visit_subcategory d r category subcategory st of
        (Inl e, st') \<Rightarrow> (Inl e, st')
      | (Inr _, st') \<Rightarrow> visit_every_subcategory d r category rest st')"

fun visit_every_category ::
  "'w driver \<Rightarrow> resume \<Rightarrow> Category list \<Rightarrow> 'w state \<Rightarrow> (error + unit) \<times> 'w state" where
  "visit_every_category d r [] st = (Inr (), st)"
| "visit_every_category d r (category # rest) st =
     (case visit_category d r category st of
        (Inl e, st') \<Rightarrow> (Inl e, st')
      | (Inr _, st') \<Rightarrow> visit_every_category d r rest st')"

text \<open>
  What the phone pattern accepts: an optional \<open>+\<close> followed by a run of at least 8
  characters that are digits or the separators \<open>-\<close>, \<open>(\<close>, \<open>)\<close>, \<open>.\<close> and space, the
  first and the last of them digits.
\<close>

definition phone_body :: "string \<Rightarrow> bool" where
  "phone_body b \<longleftrightarrow> 8 \<le> length b \<and> is_digit (hd b) \<and> is_digit (last b) \<and> list_all phone_char b"

definition phone_shape :: "string \<Rightarrow> bool" where
  "phone_shape m \<longleftrightarrow>
     (case m of
        [] \<Rightarrow> False
      | c # cs \<Rightarrow> if c = CHR ''+'' then phone_body cs else phone_body m)"

text \<open>The order of the remaining inputs, and the pattern without its optional sign.\<close>

definition shorter :: "string \<Rightarrow> string \<Rightarrow> bool" where
  "shorter a b \<longleftrightarrow> length a < length b"

definition body_re :: matcher where
  "body_re = re_seq (re_class is_digit) (re_seq (re_class_at_least 6 phone_char) (re_class is_digit))"




section \<open>Properties\<close>

subsection \<open>Navigation with retries\<close>

lemma after_loads_Suc:
  "after_loads d target (Suc k) w = after_loads d target k (snd (goto d target w))"
  using funpow_swap1 [of "\<lambda>w. snd (goto d target w)" k w] by (simp add: after_loads_def)

lemma load_fails_now:
  assumes "load_fails d target (after_loads d target 0 w)"
  obtains e w' where "goto d target w = (Inl e, w')"
  using assms
  by (cases "goto d target w") (auto simp: load_fails_def after_loads_def split: sum.splits)

lemma safe_goto_from_success:
  "k \<le> nat (retries - attempt) \<Longrightarrow> \<forall>j<k. load_fails d target (after_loads d target j w) \<Longrightarrow>
   \<not> load_fails d target (after_loads d target k w) \<Longrightarrow>
   safe_goto_from d target retries attempt w = (Inr (), after_loads d target (Suc k) w)"
proof (induction k arbitrary: attempt w)
  case 0
  then obtain w' where "goto d target w = (Inr (), w')"
    by (cases "goto d target w") (auto simp: load_fails_def after_loads_def split: sum.splits)
  then show ?case by (subst safe_goto_from.simps) (simp add: after_loads_def)
next
  case (Suc k)
  from Suc.prems(2) have "load_fails d target (after_loads d target 0 w)" by blast
  then obtain e w' where g: "goto d target w = (Inl e, w')"
    by (rule load_fails_now)
  have le: "k \<le> nat (retries - (attempt + 1))" using Suc.prems(1) by linarith
  have fails: "\<forall>j<k. load_fails d target (after_loads d target j w')"
    using Suc.prems(2) g by (auto simp: after_loads_Suc dest: Suc_mono)
  have ok: "\<not> load_fails d target (after_loads d target k w')"
    using Suc.prems(3) g by (simp add: after_loads_Suc)
  have "\<not> attempt + 1 > retries" using Suc.prems(1) by linarith
  then have "safe_goto_from d target retries attempt w = safe_goto_from d target retries (attempt + 1) w'"
    using g by (subst safe_goto_from.simps) simp
  also have "\<dots> = (Inr (), after_loads d target (Suc k) w')"
    by (rule Suc.IH [OF le fails ok])
  finally show ?case using g by (simp add: after_loads_Suc)
qed

lemma safe_goto_from_exhausted:
  "n = nat (retries - attempt) \<Longrightarrow> \<forall>j\<le>n. load_fails d target (after_loads d target j w) \<Longrightarrow>
   safe_goto_from d target retries attempt w = (Inl PlaywrightTimeoutError, after_loads d target (Suc n) w)"
proof (induction n arbitrary: attempt w)
  case 0
  then have "load_fails d target (after_loads d target 0 w)" by blast
  then obtain e w' where g: "goto d target w = (Inl e, w')"
    by (rule load_fails_now)
  have "attempt + 1 > retries" using "0.prems"(1) by linarith
  then show ?case using g by (cases e) (subst safe_goto_from.simps, simp add: after_loads_def)
next
  case (Suc n)
  then have "load_fails d target (after_loads d target 0 w)" by blast
  then obtain e w' where g: "goto d target w = (Inl e, w')"
    by (rule load_fails_now)
  have n: "n = nat (retries - (attempt + 1))" using Suc.prems(1) by linarith
  have fails: "\<forall>j\<le>n. load_fails d target (after_loads d target j w')"
    using Suc.prems(2) g by (auto simp: after_loads_Suc dest: Suc_le_mono[THEN iffD2])
  have "\<not> attempt + 1 > retries" using Suc.prems(1) by linarith
  then have "safe_goto_from d target retries attempt w = safe_goto_from d target retries (attempt + 1) w'"
    using g by (subst safe_goto_from.simps) simp
  also have "\<dots> = (Inl PlaywrightTimeoutError, after_loads d target (Suc n) w')"
    by (rule Suc.IH [OF n fails])
  finally show ?case using g by (simp add: after_loads_Suc)
qed

text \<open>
  Claim C4. \<open>_safe_goto\<close> loads the page and, when a load times out, loads it again at
  once, at most \<open>retries\<close> more times. If load number \<open>k + 1\<close> is the first that does not
  time out and \<open>k\<close> is at most \<open>retries\<close>, the call returns normally after exactly \<open>k + 1\<close>
  loads. If the first \<open>1 + retries\<close> loads all time out, the call raises the timeout
  after exactly \<open>1 + retries\<close> loads. (A negative \<open>retries\<close> counts as 0: the first load
  is always made.)
\<close>

theorem safe_goto_attempts:
  "(k \<le> nat retries \<and> (\<forall>j<k. load_fails d target (after_loads d target j w)) \<and>
        \<not> load_fails d target (after_loads d target k w) \<longrightarrow>
      safe_goto d target retries w = (Inr (), after_loads d target (k + 1) w))
   \<and> ((\<forall>j\<le>nat retries. load_fails d target (after_loads d target j w)) \<longrightarrow>
      safe_goto d target retries w =
        (Inl PlaywrightTimeoutError, after_loads d target (nat retries + 1) w))"
  using safe_goto_from_success [of k retries 0 d target w]
    safe_goto_from_exhausted [of "nat retries" retries 0 d target w]
  by (simp add: safe_goto_def)

text \<open>
  With \<open>retries = 2\<close>: two timeouts and then a success return normally on the third
  load; three timeouts raise, and no fourth load is made.
\<close>

lemmas flaky_simps = load_fails_def after_loads_def site_driver_def flaky_def blank_def load_def

theorem safe_goto_attempts_witness:
  "safe_goto (site_driver empty_site) ''p'' 2 (flaky 2) = (Inr (), load ''p'' blank)
   \<and> safe_goto (site_driver empty_site) ''p'' 2 (flaky 3) = (Inl PlaywrightTimeoutError, blank)"
proof -
  have two: "\<forall>j<2. load_fails (site_driver empty_site) ''p'' (after_loads (site_driver empty_site) ''p'' j (flaky 2))"
    by (auto simp: less_Suc_eq numeral_2_eq_2 flaky_simps)
  have third: "\<not> load_fails (site_driver empty_site) ''p'' (after_loads (site_driver empty_site) ''p'' 2 (flaky 2))"
    by (simp add: numeral_2_eq_2 flaky_simps)
  have all: "\<forall>j\<le>nat 2. load_fails (site_driver empty_site) ''p'' (after_loads (site_driver empty_site) ''p'' j (flaky 3))"
    by (auto simp: le_Suc_eq numeral_2_eq_2 numeral_3_eq_3 flaky_simps)
  show ?thesis
    using two third all safe_goto_attempts [of 2 2 "site_driver empty_site" "''p''" "flaky 2"]
      safe_goto_attempts [of 2 2 "site_driver empty_site" "''p''" "flaky 3"]
    by (simp add: numeral_2_eq_2 numeral_3_eq_3 after_loads_def site_driver_def flaky_def blank_def load_def)
qed

subsection \<open>The output file\<close>

text \<open>
  Claim C8. \<open>_init_csv\<close> is idempotent. When the output file does not exist it creates
  the file with the header row alone; when the file exists it leaves the whole state, and
  so the content of the file, as it is. Calling it twice is the same as calling it once:
  the header is not written again and no row is lost.
\<close>

theorem init_csv_idempotent:
  "(output_csv st = None \<longrightarrow> init_csv st = st\<lparr>output_csv := Some [CSV_HEADERS]\<rparr>)
   \<and> (\<forall>rows. output_csv st = Some rows \<longrightarrow> init_csv st = st)
   \<and> init_csv (init_csv st) = init_csv st"
  by (auto simp: init_csv_def split: option.splits)

theorem init_csv_idempotent_witness:
  "init_csv (initial None None) = (initial None None)\<lparr>output_csv := Some [CSV_HEADERS]\<rparr>
   \<and> init_csv (initial (Some [CSV_HEADERS, [''a'']]) None) = initial (Some [CSV_HEADERS, [''a'']]) None
   \<and> init_csv (init_csv (initial None None)) = init_csv (initial None None)"
  using init_csv_idempotent [of "initial None None"]
    init_csv_idempotent [of "initial (Some [CSV_HEADERS, [''a'']]) None"]
  by (simp add: initial_def init_csv_def)

subsection \<open>The exhibitor loop\<close>

lemma exhibitor_step_index:
  "exhibitor_step d r category subcategory exhibitor_index seen st = (f, i, seen', st') \<Longrightarrow>
   (f = Next \<longrightarrow> i = exhibitor_index + 1) \<and> (f \<noteq> Next \<longrightarrow> i = exhibitor_index)"
  by (auto simp: exhibitor_step_def extract_and_record_def record_exhibitor_def back_and_checkpoint_def
           split: prod.splits if_splits sum.splits option.splits)

lemma exhibitor_step_Break:
  "exhibitor_step d r category subcategory exhibitor_index seen st = (Break, i, seen', st') \<Longrightarrow>
   exhibitor_index \<ge> int (fst (card_count d (world st)))"
  by (auto simp: exhibitor_step_def extract_and_record_def record_exhibitor_def back_and_checkpoint_def
           split: prod.splits if_splits sum.splits option.splits)

lemma exhibitor_loop_within_enough:
  "nat (int exhibitor_count - exhibitor_index) \<le> k \<Longrightarrow>
   exhibitor_loop_within k d r category subcategory exhibitor_count exhibitor_index seen st =
     Some (exhibitor_loop d r category subcategory exhibitor_count exhibitor_index seen st)"
proof (induction k arbitrary: exhibitor_index seen st)
  case 0
  then show ?case by (subst exhibitor_loop.simps) simp
next
  case (Suc k)
  show ?case
  proof (cases "exhibitor_index < int exhibitor_count")
    case False
    then show ?thesis by (subst exhibitor_loop.simps) simp
  next
    case True
    obtain f i seen' st' where
      step: "exhibitor_step d r category subcategory exhibitor_index seen st = (f, i, seen', st')"
      by (metis prod_cases4)
    show ?thesis
    proof (cases f)
      case Next
      with step have "i = exhibitor_index + 1" by (simp add: exhibitor_step_index)
      with Suc.prems have "nat (int exhibitor_count - i) \<le> k" by linarith
      then have "exhibitor_loop_within k d r category subcategory exhibitor_count i seen' st' =
          Some (exhibitor_loop d r category subcategory exhibitor_count i seen' st')"
        by (rule Suc.IH)
      then show ?thesis
        using True step Next
        by (subst exhibitor_loop.simps) simp
    next
      case Break
      then show ?thesis using True step by (subst exhibitor_loop.simps) simp
    next
      case (Raise e)
      then show ?thesis using True step by (subst exhibitor_loop.simps) simp
    qed
  qed
qed

text \<open>
  Claim C10. The exhibitor loop of a subcategory terminates. An iteration either
  completes with \<open>exhibitor_index\<close> increased by exactly 1 (whichever path it takes, as it
  was a \<open>Next\<close>), or breaks because the index has reached the number of cards that the
  page shows now, or propagates a timeout of the driver, which ends the loop as well. The
  bound \<open>exhibitor_count\<close> is an argument of the loop and does not change. So the loop cut
  off after \<open>exhibitor_count - exhibitor_index\<close> iterations has already returned, with the
  result of the loop.
\<close>

theorem exhibitor_loop_terminates:
  "(\<forall>f i seen' st'.
      exhibitor_step d r category subcategory exhibitor_index seen st = (f, i, seen', st') \<longrightarrow>
        (f = Next \<and> i = exhibitor_index + 1)
        \<or> (f = Break \<and> i = exhibitor_index \<and> exhibitor_index \<ge> int (fst (card_count d (world st))))
        \<or> (\<exists>e. f = Raise e \<and> i = exhibitor_index))
   \<and> exhibitor_loop_within (nat (int exhibitor_count - exhibitor_index)) d r category subcategory
        exhibitor_count exhibitor_index seen st =
      Some (exhibitor_loop d r category subcategory exhibitor_count exhibitor_index seen st)"
proof (intro conjI allI impI)
  fix f i seen' st'
  assume step: "exhibitor_step d r category subcategory exhibitor_index seen st = (f, i, seen', st')"
  show "(f = Next \<and> i = exhibitor_index + 1)
        \<or> (f = Break \<and> i = exhibitor_index \<and> exhibitor_index \<ge> int (fst (card_count d (world st))))
        \<or> (\<exists>e. f = Raise e \<and> i = exhibitor_index)"
    using exhibitor_step_index [OF step] exhibitor_step_Break [of d r category subcategory exhibitor_index seen st i seen' st'] step
    by (cases f) auto
next
  show "exhibitor_loop_within (nat (int exhibitor_count - exhibitor_index)) d r category subcategory
        exhibitor_count exhibitor_index seen st =
      Some (exhibitor_loop d r category subcategory exhibitor_count exhibitor_index seen st)"
    by (rule exhibitor_loop_within_enough) simp
qed

text \<open>
  On the six cards of A/S1, the first iteration advances the index from 0 to 1, and six
  iterations are enough.
\<close>

theorem exhibitor_loop_terminates_witness:
  "fst (exhibitor_step (site_driver demo_site) demo_resume cat_A sub_A1 0 {} (at_page ''A/1'')) = Next
   \<and> fst (snd (exhibitor_step (site_driver demo_site) demo_resume cat_A sub_A1 0 {} (at_page ''A/1''))) = 1
   \<and> exhibitor_loop_within 6 (site_driver demo_site) demo_resume cat_A sub_A1 6 0 {} (at_page ''A/1'') =
       Some (exhibitor_loop (site_driver demo_site) demo_resume cat_A sub_A1 6 0 {} (at_page ''A/1''))"
proof -
  obtain f i seen' st' where
    step: "exhibitor_step (site_driver demo_site) demo_resume cat_A sub_A1 0 {} (at_page ''A/1'') = (f, i, seen', st')"
    by (metis prod_cases4)
  have "fst (exhibitor_step (site_driver demo_site) demo_resume cat_A sub_A1 0 {} (at_page ''A/1'')) = Next"
    by code_simp
  with step have "f = Next" by simp
  with step show ?thesis
    using exhibitor_loop_terminates [of "site_driver demo_site" demo_resume cat_A sub_A1 0 "{}" "at_page ''A/1''" 6]
    by simp
qed

subsection \<open>Where the exhibitor loop starts\<close>

text \<open>
  Claim C2. With the checkpoint \<open>(C, S, N)\<close> loaded, the exhibitor loop of a subcategory
  starts at an index other than 0 only when the name of the category is \<open>C\<close> and the name
  of the subcategory is \<open>S\<close>, and then it starts at \<open>N\<close>; the loop of every other
  subcategory starts at 0. The last part is the call of the loop in the visit of a
  subcategory, with this starting index and the empty set of seen links.
\<close>

theorem start_index_only_at_checkpoint:
  assumes "r = resume_settings fresh target (Some (resumed C S N))"
  shows "(start_index r category subcategory \<noteq> 0 \<longrightarrow>
      name category = C \<and> name subcategory = S \<and> start_index r category subcategory = N)
   \<and> (name category \<noteq> C \<or> name subcategory \<noteq> S \<longrightarrow> start_index r category subcategory = 0)
   \<and> (\<not> fresh \<and> C \<noteq> [] \<and> S \<noteq> [] \<and> name category = C \<and> name subcategory = S \<longrightarrow>
        start_index r category subcategory = N)
   \<and> (\<forall>w n w'. safe_goto d (url subcategory) 2 (world st) = (Inr (), w) \<and>
         count_exhibitor_cards d (wait_for_timeout d 1000 w) = (Inr n, w') \<longrightarrow>
       visit_subcategory d r category subcategory st =
         (case exhibitor_loop d r category subcategory n
                 (if \<not> fresh \<and> C \<noteq> [] \<and> S \<noteq> [] \<and> name category = C \<and> name subcategory = S then N else 0) {}
                 (print (''Subcategory '' @ name subcategory @ '' has '' @ str_nat n @ '' exhibitors'')
                    (st\<lparr>world := w'\<rparr>)) of
            (Inl e, st') \<Rightarrow> (Inl e, st')
          | (Inr i, st') \<Rightarrow> (Inr (), save_checkpoint (name category) (name subcategory) i st')))"
  using assms
  by (auto simp: start_index_def resume_settings_def resumed_def truthy_def visit_subcategory_def)

text \<open>
  Resumed at (B, S2, 3): the loop of B/S2 starts at 3 and that of A/S1 at 0. The page of
  B/S2 has a single card, so the visit, taken here on its own, processes no card and
  saves the index 3 again.
\<close>

theorem start_index_only_at_checkpoint_witness:
  "start_index (resume_settings False RESUME_AFTER_COMPANY_NAME (Some (resumed ''B'' ''S2'' 3))) cat_B sub_B2 = 3
   \<and> start_index (resume_settings False RESUME_AFTER_COMPANY_NAME (Some (resumed ''B'' ''S2'' 3))) cat_A sub_A1 = 0
   \<and> checkpoint_file (snd (visit_subcategory (site_driver demo_site)
          (resume_settings False RESUME_AFTER_COMPANY_NAME (Some (resumed ''B'' ''S2'' 3))) cat_B sub_B2 (at_page ''B'')))
       = Some (resumed ''B'' ''S2'' 3)"
proof -
  let ?r = "resume_settings False RESUME_AFTER_COMPANY_NAME (Some (resumed ''B'' ''S2'' 3))"
  note at_B2 = start_index_only_at_checkpoint [OF refl, of False RESUME_AFTER_COMPANY_NAME "''B''" "''S2''" 3
      cat_B sub_B2 "site_driver demo_site" "at_page ''B''"]
  note at_A1 = start_index_only_at_checkpoint [OF refl, of False RESUME_AFTER_COMPANY_NAME "''B''" "''S2''" 3
      cat_A sub_A1 "site_driver demo_site" "at_page ''B''"]
  have first: "start_index ?r cat_B sub_B2 = 3"
    using at_B2 by (simp add: cat_B_def sub_B2_def)
  have second: "start_index ?r cat_A sub_A1 = 0"
    using at_A1 by (simp add: cat_A_def sub_A1_def)
  have nav: "safe_goto (site_driver demo_site) (url sub_B2) 2 (world (at_page ''B'')) =
      (Inr (), load ''B/2'' (load ''B'' blank))"
    by code_simp
  have cards: "count_exhibitor_cards (site_driver demo_site)
        (wait_for_timeout (site_driver demo_site) 1000 (load ''B/2'' (load ''B'' blank))) =
      (Inr 1, load ''B/2'' (load ''B'' blank))"
    by code_simp
  have visit: "visit_subcategory (site_driver demo_site) ?r cat_B sub_B2 (at_page ''B'') =
      (case exhibitor_loop (site_driver demo_site) ?r cat_B sub_B2 1 3 {}
              (print (''Subcategory '' @ name sub_B2 @ '' has '' @ str_nat 1 @ '' exhibitors'')
                 ((at_page ''B'')\<lparr>world := load ''B/2'' (load ''B'' blank)\<rparr>)) of
         (Inl e, st') \<Rightarrow> (Inl e, st')
       | (Inr i, st') \<Rightarrow> (Inr (), save_checkpoint (name cat_B) (name sub_B2) i st'))"
    using at_B2 nav cards by (simp add: cat_B_def sub_B2_def)
  have third: "checkpoint_file (snd (visit_subcategory (site_driver demo_site) ?r cat_B sub_B2 (at_page ''B'')))
       = Some (resumed ''B'' ''S2'' 3)"
    unfolding visit by code_simp
  from first second third show ?thesis by simp
qed

subsection \<open>Incomplete records and timeouts of the extraction\<close>



lemma str_strip_fixed:
  "s = [] \<or> (\<not> is_space (hd s) \<and> \<not> is_space (last s)) \<Longrightarrow> str_strip s = s"
proof (cases "s = []")
  case True
  then show ?thesis by (simp add: str_strip_def)
next
  case False
  assume "s = [] \<or> (\<not> is_space (hd s) \<and> \<not> is_space (last s))"
  with False have ends: "\<not> is_space (hd s)" "\<not> is_space (last s)" by simp_all
  have front: "dropWhile is_space s = s"
    using ends(1) by (simp add: dropWhile_eq_self_iff)
  have "hd (rev s) = last s" using False by (simp add: hd_rev)
  then have "dropWhile is_space (rev s) = rev s"
    using ends(2) by (simp add: dropWhile_eq_self_iff)
  with front show ?thesis by (simp add: str_strip_def)
qed



lemma join_empty: "join sep [] = []"
  by simp








lemma back_and_checkpoint_csv:
  "output_csv (snd (snd (back_and_checkpoint d c s idx st))) = output_csv st"
  by (auto simp: back_and_checkpoint_def save_checkpoint_def split: prod.splits sum.splits)



lemma record_gated_csv:
  "\<not> resume_name_found st \<Longrightarrow>
   output_csv (snd (snd (record_exhibitor d r c s found timed_out idx st))) = output_csv st"
  by (cases found) (simp_all add: record_exhibitor_def back_and_checkpoint_csv print_def)





subsection \<open>The name gate\<close>

lemma record_found_kept:
  "resume_name_found st \<Longrightarrow>
   resume_name_found (snd (snd (record_exhibitor d r c s found timed_out idx st)))"
  by (cases found)
     (auto simp: record_exhibitor_def back_and_checkpoint_def save_checkpoint_def print_def append_row_def
           split: prod.splits sum.splits)

lemma record_no_match:
  "\<not> resume_name_found st \<Longrightarrow>
   \<forall>det. found = Some det \<longrightarrow> str_lower (str_strip (company_name det)) \<noteq> resume_after_name r \<Longrightarrow>
   \<not> resume_name_found (snd (snd (record_exhibitor d r c s found timed_out idx st)))"
  by (cases found)
     (auto simp: record_exhibitor_def back_and_checkpoint_def save_checkpoint_def print_def
           split: prod.splits sum.splits)




























subsection \<open>Repeated link targets\<close>

lemma first_targets_set: "set (first_targets seen cards) = link_targets cards - seen"
  by (induction seen cards rule: first_targets.induct)
     (auto simp: link_targets_def split: list.splits)

lemma first_targets_distinct: "distinct (first_targets seen cards)"
  by (induction seen cards rule: first_targets.induct)
     (auto simp: first_targets_set split: list.splits)

lemma static_back:
  "location w = u \<Longrightarrow>
   go_back (site_driver s) (load target w) = (Inr (), w\<lparr>visited := visited w @ [target]\<rparr>)"
  by (simp add: site_driver_def load_def)

lemma static_extract_world:
  "snd (extract_exhibitor_details (site_driver s) w) = w"
  by (simp add: extract_exhibitor_details_def site_driver_def split: option.splits)

lemma back_and_checkpoint_world:
  "go_back d (world st) = (Inr (), w') \<Longrightarrow>
   \<exists>st'. back_and_checkpoint d c sc idx st = (Next, idx + 1, st') \<and> world st' = wait_for_timeout d 1000 w'"
  by (simp add: back_and_checkpoint_def save_checkpoint_def)

lemma record_world:
  "go_back d (world st) = (Inr (), w') \<Longrightarrow>
   \<exists>st'. record_exhibitor d r c sc found timed_out idx st = (Next, idx + 1, st') \<and>
     world st' = wait_for_timeout d 1000 w'"
  by (cases found)
     (auto simp: record_exhibitor_def print_def append_row_def intro!: back_and_checkpoint_world)

lemma static_extract_and_record:
  assumes "world st = load target w" and "location w = u"
  shows "\<exists>st'. extract_and_record (site_driver s) r c sc idx st = (Next, idx + 1, st') \<and>
     world st' = w\<lparr>visited := visited w @ [target]\<rparr>"
proof -
  obtain found w1 where e: "extract_exhibitor_details (site_driver s) (world st) = (found, w1)"
    by (cases "extract_exhibitor_details (site_driver s) (world st)")
  with static_extract_world [of s "world st"] have w1: "w1 = load target w"
    using assms(1) by simp
  have wait: "wait_for_timeout (site_driver s) 1000 w' = w'" for w'
    by (simp add: site_driver_def)
  show ?thesis
  proof (cases found)
    case (Inl err)
    then show ?thesis
      using e w1 record_world [of "site_driver s" _ "w\<lparr>visited := visited w @ [target]\<rparr>"] static_back [OF assms(2)]
      by (simp add: extract_and_record_def print_def wait)
  next
    case (Inr det)
    then show ?thesis
      using e w1 record_world [of "site_driver s" _ "w\<lparr>visited := visited w @ [target]\<rparr>"] static_back [OF assms(2)]
      by (simp add: extract_and_record_def wait)
  qed
qed

lemma static_step:
  assumes "0 \<le> idx"
  shows "exhibitor_step (site_driver s) r c sc idx seen st =
     (if nat idx \<ge> length (cards_at s (location (world st))) then (Break, idx, seen, st)
      else case cards_at s (location (world st)) ! nat idx of
          [] \<Rightarrow> (Next, idx + 1, seen, st)
        | h # _ \<Rightarrow>
            if or_empty h \<in> seen then (Next, idx + 1, seen, st)
            else (case extract_and_record (site_driver s) r c sc idx
                         (st\<lparr>world := load (or_empty h) (world st)\<rparr>) of
                    (f, i, st') \<Rightarrow> (f, i, insert (or_empty h) seen, st')))"
  using assms
  by (auto simp: exhibitor_step_def site_driver_def card_links_def split: list.splits)

lemma static_loop:
  assumes "0 \<le> idx" and "location (world st) = u"
  shows "\<exists>i st'. exhibitor_loop (site_driver s) r c sc n idx seen st = (Inr i, st') \<and>
      location (world st') = u \<and>
      visited (world st') =
        visited (world st) @ first_targets seen (drop (nat idx) (take n (cards_at s u)))"
  using assms
proof (induction "nat (int n - idx)" arbitrary: idx seen st)
  case 0
  then have "\<not> idx < int n" by simp
  moreover from this "0.prems"(1) have "drop (nat idx) (take n (cards_at s u)) = []" by simp
  ultimately show ?case
    using "0.prems"(2) by (subst exhibitor_loop.simps) simp
next
  case (Suc k)
  then have guard: "idx < int n" by linarith
  have next_k: "k = nat (int n - (idx + 1))" using Suc.hyps(2) by linarith
  have next_idx: "0 \<le> idx + 1" using Suc.prems(1) by simp
  let ?cards = "cards_at s u"
  show ?case
  proof (cases "nat idx \<ge> length ?cards")
    case True
    then have "drop (nat idx) (take n ?cards) = []" by simp
    then show ?thesis
      using guard True Suc.prems
      by (subst exhibitor_loop.simps) (simp add: static_step)
  next
    case False
    then have here: "drop (nat idx) (take n ?cards) =
        (?cards ! nat idx) # drop (nat (idx + 1)) (take n ?cards)"
      using guard Suc.prems(1)
      by (simp add: Cons_nth_drop_Suc [symmetric] nat_add_distrib)
    show ?thesis
    proof (cases "?cards ! nat idx")
      case Nil
      then have step: "exhibitor_step (site_driver s) r c sc idx seen st = (Next, idx + 1, seen, st)"
        using False Suc.prems by (simp add: static_step)
      from Suc.hyps(1) [OF next_k next_idx Suc.prems(2), of seen]
      show ?thesis
        using guard step here Nil by (subst exhibitor_loop.simps) simp
    next
      case (Cons h more)
      show ?thesis
      proof (cases "or_empty h \<in> seen")
        case True
        then have step: "exhibitor_step (site_driver s) r c sc idx seen st = (Next, idx + 1, seen, st)"
          using False Cons Suc.prems by (simp add: static_step)
        from Suc.hyps(1) [OF next_k next_idx Suc.prems(2), of seen]
        show ?thesis
          using guard step here Cons True by (subst exhibitor_loop.simps) simp
      next
        case new: False
        obtain st1 where rec:
          "extract_and_record (site_driver s) r c sc idx (st\<lparr>world := load (or_empty h) (world st)\<rparr>) =
             (Next, idx + 1, st1)"
          "world st1 = (world st)\<lparr>visited := visited (world st) @ [or_empty h]\<rparr>"
          using static_extract_and_record [of "st\<lparr>world := load (or_empty h) (world st)\<rparr>"
              "or_empty h" "world st" u s r c sc idx] Suc.prems(2)
          by auto
        then have step: "exhibitor_step (site_driver s) r c sc idx seen st =
            (Next, idx + 1, insert (or_empty h) seen, st1)"
          using False Cons new Suc.prems by (simp add: static_step)
        have at: "location (world st1) = u" using rec(2) Suc.prems(2) by simp
        from Suc.hyps(1) [OF next_k next_idx at, of "insert (or_empty h) seen"]
        show ?thesis
          using guard step here Cons new rec(2) by (subst exhibitor_loop.simps) simp
      qed
    qed
  qed
qed

lemma static_safe_goto:
  "failures w = 0 \<Longrightarrow> safe_goto (site_driver s) target retries w = (Inr (), load target w)"
  by (simp add: safe_goto_def safe_goto_from.simps site_driver_def)

lemma static_count:
  "cards_at s (location w) \<noteq> [] \<Longrightarrow>
   count_exhibitor_cards (site_driver s) w = (Inr (length (cards_at s (location w))), w)"
  by (simp add: count_exhibitor_cards_def site_driver_def)

lemma static_visit:
  assumes "failures (world st) = 0" and "cards_at s (url sc) \<noteq> []" and "0 \<le> start_index r c sc"
  shows "\<exists>st'. visit_subcategory (site_driver s) r c sc st = (Inr (), st') \<and>
      visited (world st') =
        visited (world st) @ url sc # first_targets {} (drop (nat (start_index r c sc)) (cards_at s (url sc)))"
proof -
  let ?w = "load (url sc) (world st)"
  let ?n = "length (cards_at s (url sc))"
  let ?st = "print (''Subcategory '' @ name sc @ '' has '' @ str_nat ?n @ '' exhibitors'') (st\<lparr>world := ?w\<rparr>)"
  have at: "location (world ?st) = url sc" by (simp add: print_def load_def)
  have wait: "wait_for_timeout (site_driver s) 1000 ?w = ?w" by (simp add: site_driver_def)
  have count: "count_exhibitor_cards (site_driver s) ?w = (Inr ?n, ?w)"
    using static_count [of s ?w] assms(2) by (simp add: load_def)
  obtain i st1 where loop:
    "exhibitor_loop (site_driver s) r c sc ?n (start_index r c sc) {} ?st = (Inr i, st1)"
    "visited (world st1) = visited (world ?st) @
       first_targets {} (drop (nat (start_index r c sc)) (take ?n (cards_at s (url sc))))"
    using static_loop [OF assms(3) at, where n = ?n and seen = "{}" and s = s and r = r and c = c and sc = sc]
    by blast
  have "visit_subcategory (site_driver s) r c sc st =
      (Inr (), save_checkpoint (name c) (name sc) i st1)"
    using assms(1) count loop(1) by (simp add: visit_subcategory_def static_safe_goto wait)
  moreover have "visited (world (save_checkpoint (name c) (name sc) i st1)) =
      visited (world st) @ url sc # first_targets {} (drop (nat (start_index r c sc)) (cards_at s (url sc)))"
    using loop(2) by (simp add: save_checkpoint_def print_def load_def)
  ultimately show ?thesis by blast
qed

text \<open>
  Claim C9. On every driver, when the link of the card at \<open>exhibitor_index\<close> has a
  target that is already in \<open>seen_exhibitors\<close>, the iteration only advances the index:
  the page state is the one after reading the link, nothing is clicked, extracted,
  written or saved. On every static site, the visit of a subcategory loads the page of the
  subcategory and then the targets of its cards from the starting index on, each target
  once, at its first occurrence, in the order of the cards: the set of seen targets is
  empty at the start of every visit, whatever earlier visits have seen.
\<close>

theorem repeated_link_processed_once:
  "(card_count d (world st) = (n, w1) \<and> exhibitor_index < int n \<and>
      card_link_count d exhibitor_index (dismiss_overlay d w1) = (m, w2) \<and> m \<noteq> 0 \<and>
      card_link_href d exhibitor_index w2 = (Inr h, w3) \<and> or_empty h \<in> seen \<longrightarrow>
    exhibitor_step d r category subcategory exhibitor_index seen st =
      (Next, exhibitor_index + 1, seen, st\<lparr>world := w3\<rparr>))
   \<and> (failures (world st0) = 0 \<and> cards_at s (url subcategory) \<noteq> [] \<and>
        0 \<le> start_index r category subcategory \<longrightarrow>
      (\<exists>st'. visit_subcategory (site_driver s) r category subcategory st0 = (Inr (), st') \<and>
         visited (world st') = visited (world st0) @ url subcategory #
           first_targets {} (drop (nat (start_index r category subcategory)) (cards_at s (url subcategory)))))
   \<and> distinct (first_targets seen cards)
   \<and> set (first_targets seen cards) = link_targets cards - seen"
proof (intro conjI impI)
  assume "card_count d (world st) = (n, w1) \<and> exhibitor_index < int n \<and>
      card_link_count d exhibitor_index (dismiss_overlay d w1) = (m, w2) \<and> m \<noteq> 0 \<and>
      card_link_href d exhibitor_index w2 = (Inr h, w3) \<and> or_empty h \<in> seen"
  then show "exhibitor_step d r category subcategory exhibitor_index seen st =
      (Next, exhibitor_index + 1, seen, st\<lparr>world := w3\<rparr>)"
    by (simp add: exhibitor_step_def)
next
  assume "failures (world st0) = 0 \<and> cards_at s (url subcategory) \<noteq> [] \<and>
        0 \<le> start_index r category subcategory"
  then show "\<exists>st'. visit_subcategory (site_driver s) r category subcategory st0 = (Inr (), st') \<and>
         visited (world st') = visited (world st0) @ url subcategory #
           first_targets {} (drop (nat (start_index r category subcategory)) (cards_at s (url subcategory)))"
    using static_visit by blast
next
  show "distinct (first_targets seen cards)" by (rule first_targets_distinct)
  show "set (first_targets seen cards) = link_targets cards - seen" by (rule first_targets_set)
qed

text \<open>
  On the site of the examples: the second card of A/S1 repeats the target of the first
  and is passed over; the visit of A/S1 loads that target once; the visit of B/S2 loads
  the same target again.
\<close>

theorem repeated_link_processed_once_witness:
  "exhibitor_step (site_driver demo_site) demo_resume cat_A sub_A1 1 {''x1''} (at_page ''A/1'') =
     (Next, 2, {''x1''}, at_page ''A/1'')
   \<and> visited (world (snd (visit_subcategory (site_driver demo_site) demo_resume cat_A sub_A1 (at_page ''A'')))) =
       [''A'', ''A/1'', ''x1'', ''x2'', ''x3'', ''x4'']
   \<and> visited (world (snd (visit_subcategory (site_driver demo_site) demo_resume cat_B sub_B2 (at_page ''B'')))) =
       [''B'', ''B/2'', ''x1'']"
proof -
  let ?D = "site_driver demo_site"
  have count: "card_count ?D (world (at_page ''A/1'')) = (6, load ''A/1'' blank)"
    by code_simp
  have links: "card_link_count ?D 1 (dismiss_overlay ?D (load ''A/1'' blank)) = (1, load ''A/1'' blank)"
    by code_simp
  have href: "card_link_href ?D 1 (load ''A/1'' blank) = (Inr (Some ''x1''), load ''A/1'' blank)"
    by code_simp
  have same: "(at_page ''A/1'')\<lparr>world := load ''A/1'' blank\<rparr> = at_page ''A/1''"
    by (simp add: at_page_def)
  have skipped: "exhibitor_step ?D demo_resume cat_A sub_A1 1 {''x1''} (at_page ''A/1'') =
      (Next, 2, {''x1''}, at_page ''A/1'')"
    using repeated_link_processed_once [of ?D "at_page ''A/1''" 6 "load ''A/1'' blank" 1 1 "load ''A/1'' blank"
        "Some ''x1''" "load ''A/1'' blank" "{''x1''}" demo_resume cat_A sub_A1] count links href same
    by (simp add: or_empty_def)
  have start_A: "failures (world (at_page ''A'')) = 0 \<and> cards_at demo_site (url sub_A1) \<noteq> [] \<and>
      0 \<le> start_index demo_resume cat_A sub_A1"
    by code_simp
  have start_B: "failures (world (at_page ''B'')) = 0 \<and> cards_at demo_site (url sub_B2) \<noteq> [] \<and>
      0 \<le> start_index demo_resume cat_B sub_B2"
    by code_simp
  have list_A: "visited (world (at_page ''A'')) @ url sub_A1 #
      first_targets {} (drop (nat (start_index demo_resume cat_A sub_A1)) (cards_at demo_site (url sub_A1))) =
      [''A'', ''A/1'', ''x1'', ''x2'', ''x3'', ''x4'']"
    by code_simp
  have list_B: "visited (world (at_page ''B'')) @ url sub_B2 #
      first_targets {} (drop (nat (start_index demo_resume cat_B sub_B2)) (cards_at demo_site (url sub_B2))) =
      [''B'', ''B/2'', ''x1'']"
    by code_simp
  have visit_A: "visited (world (snd (visit_subcategory ?D demo_resume cat_A sub_A1 (at_page ''A'')))) =
       [''A'', ''A/1'', ''x1'', ''x2'', ''x3'', ''x4'']"
    using repeated_link_processed_once [of ?D "at_page ''A/1''" 6 "load ''A/1'' blank" 1 1 "load ''A/1'' blank"
        "Some ''x1''" "load ''A/1'' blank" "{''x1''}" demo_resume cat_A sub_A1 "at_page ''A''" demo_site "[]"]
      start_A list_A
    by auto
  have visit_B: "visited (world (snd (visit_subcategory ?D demo_resume cat_B sub_B2 (at_page ''B'')))) =
       [''B'', ''B/2'', ''x1'']"
    using repeated_link_processed_once [of ?D "at_page ''A/1''" 6 "load ''A/1'' blank" 1 1 "load ''A/1'' blank"
        "Some ''x1''" "load ''A/1'' blank" "{''x1''}" demo_resume cat_B sub_B2 "at_page ''B''" demo_site "[]"]
      start_B list_B
    by auto
  from skipped visit_A visit_B show ?thesis by simp
qed

subsection \<open>Skipping subcategories when resuming\<close>

lemma subcategory_loop_no_skip:
  "started \<or> \<not> resume_mode r \<or> Some (name category) \<noteq> resume_category r \<Longrightarrow>
   subcategory_loop d r category started subcategories st =
     visit_every_subcategory d r category subcategories st"
  by (induction subcategories arbitrary: st) (auto split: prod.splits sum.splits)

lemma subcategory_loop_skip:
  "resume_mode r \<Longrightarrow> Some (name category) = resume_category r \<Longrightarrow>
   \<forall>x\<in>set before. Some (name x) \<noteq> resume_subcategory r \<Longrightarrow>
   subcategory_loop d r category False (before @ rest) st =
     subcategory_loop d r category False rest st"
  by (induction before) auto

lemma subcategory_loop_match:
  "resume_mode r \<Longrightarrow> Some (name category) = resume_category r \<Longrightarrow>
   Some (name subcategory) = resume_subcategory r \<Longrightarrow>
   subcategory_loop d r category False (subcategory # rest) st =
     visit_every_subcategory d r category rest st"
  using subcategory_loop_no_skip [of True r category d rest st] by simp

lemma category_loop_started:
  "category_loop d r True categories st = visit_every_category d r categories st"
  by (induction categories arbitrary: st) (auto split: prod.splits sum.splits)

lemma category_loop_skip:
  "\<forall>x\<in>set before. Some (name x) \<noteq> resume_category r \<Longrightarrow>
   category_loop d r False (before @ rest) st = category_loop d r False rest st"
  by (induction before) auto

lemma category_loop_match:
  "Some (name category) = resume_category r \<Longrightarrow>
   category_loop d r False (category # rest) st =
     visit_every_category d r (category # rest) st"
  by (simp add: category_loop_started split: prod.splits sum.splits)

text \<open>
  The tests of lines 245 and 247 compare the name of the category with the name in the
  checkpoint: on a site where a second category link carries the same text, the
  subcategories of the second category are skipped in the same way.
\<close>

lemma same_name_category_skips_again:
  "visited (world (snd (run (site_driver twin_site) False False False
       (initial None (Some (resumed ''B'' ''S2'' 0)))))) =
     [START_URL, ''b1'', ''b1/3'', ''b2'', ''b2/3'']"
  by code_simp

text \<open>
  Claim C3. Let the run resume from the checkpoint \<open>(C, S, N)\<close>. In the visit of the
  category named \<open>C\<close>, the subcategories before the first one named \<open>S\<close> are skipped,
  and the skipping ends there: every subcategory after it is visited. The subcategory named
  \<open>S\<close> itself is skipped too, which is the defect: the \<open>continue\<close> of line 250 stands
  outside the test of line 248, whereas the category loop (lines 225-229) visits the
  category that matches, and line 268 expects the loop to enter the subcategory of the
  checkpoint. When no subcategory is named \<open>S\<close>, all of them are skipped. In the visit
  of a category with another name no subcategory is skipped, whatever the flag. The
  categories before the first one named \<open>C\<close> are skipped, and that category and every
  later one are visited; when no category is named \<open>C\<close>, none is visited.
\<close>

theorem resume_skips_checkpointed_subcategory:
  assumes "resume_mode r" and "resume_category r = Some C" and "resume_subcategory r = Some S"
  shows "(name category = C \<and> (\<forall>x\<in>set before. name x \<noteq> S) \<and> name subcategory = S \<longrightarrow>
            subcategory_loop d r category False (before @ subcategory # rest) st =
              visit_every_subcategory d r category rest st)
     \<and> (name category = C \<and> (\<forall>x\<in>set before. name x \<noteq> S) \<longrightarrow>
            subcategory_loop d r category False before st = (Inr (), st))
     \<and> (name category \<noteq> C \<longrightarrow>
            subcategory_loop d r category started subcategories st =
              visit_every_subcategory d r category subcategories st)
     \<and> ((\<forall>x\<in>set earlier. name x \<noteq> C) \<and> name category = C \<longrightarrow>
            category_loop d r False (earlier @ category # later) st =
              visit_every_category d r (category # later) st)
     \<and> ((\<forall>x\<in>set earlier. name x \<noteq> C) \<longrightarrow>
            category_loop d r False earlier st = (Inr (), st))"
proof (intro conjI impI)
  assume a: "name category = C \<and> (\<forall>x\<in>set before. name x \<noteq> S) \<and> name subcategory = S"
  have "subcategory_loop d r category False (before @ subcategory # rest) st =
      subcategory_loop d r category False (subcategory # rest) st"
    using subcategory_loop_skip [of r category before d "subcategory # rest" st] assms a by simp
  also have "\<dots> = visit_every_subcategory d r category rest st"
    using subcategory_loop_match [of r category subcategory d rest st] assms a by simp
  finally show "subcategory_loop d r category False (before @ subcategory # rest) st =
      visit_every_subcategory d r category rest st" .
next
  assume a: "name category = C \<and> (\<forall>x\<in>set before. name x \<noteq> S)"
  show "subcategory_loop d r category False before st = (Inr (), st)"
    using subcategory_loop_skip [of r category before d "[]" st] assms a by simp
next
  assume "name category \<noteq> C"
  then show "subcategory_loop d r category started subcategories st =
      visit_every_subcategory d r category subcategories st"
    using subcategory_loop_no_skip [of started r category d subcategories st] assms by simp
next
  assume a: "(\<forall>x\<in>set earlier. name x \<noteq> C) \<and> name category = C"
  have "category_loop d r False (earlier @ category # later) st =
      category_loop d r False (category # later) st"
    using category_loop_skip [of earlier r d "category # later" st] assms a by simp
  also have "\<dots> = visit_every_category d r (category # later) st"
    using category_loop_match [of category r d later st] assms a by simp
  finally show "category_loop d r False (earlier @ category # later) st =
      visit_every_category d r (category # later) st" .
next
  assume a: "\<forall>x\<in>set earlier. name x \<noteq> C"
  show "category_loop d r False earlier st = (Inr (), st)"
    using category_loop_skip [of earlier r d "[]" st] assms a by simp
qed

text \<open>
  Resumed at (B, S2, 3) on the site with three categories: in B the loop skips S1 and S2
  and visits S3 alone; the category loop skips A and visits B and C; the run loads the
  start page, B, B/S3, C and both subcategories of C, and never the page B/S2 of the
  checkpoint.
\<close>

theorem resume_skips_checkpointed_subcategory_witness:
  "subcategory_loop (site_driver scenario_site) resume_B2 cat_B False [sub_B1, sub_B2, sub_B3]
       (at_page ''B'') =
     visit_subcategory (site_driver scenario_site) resume_B2 cat_B sub_B3 (at_page ''B'')
   \<and> category_loop (site_driver scenario_site) resume_B2 False [cat_A, cat_B, cat_C] (at_page START_URL) =
     visit_every_category (site_driver scenario_site) resume_B2 [cat_B, cat_C] (at_page START_URL)
   \<and> visited (world (snd (run (site_driver scenario_site) False False False kept))) =
     [START_URL, ''B'', ''B/3'', ''C'', ''C/1'', ''C/2'']"
proof -
  have resuming: "resume_mode resume_B2" "resume_category resume_B2 = Some ''B''"
      "resume_subcategory resume_B2 = Some ''S2''"
    by code_simp+
  have sub: "name cat_B = ''B'' \<and> (\<forall>x\<in>set [sub_B1]. name x \<noteq> ''S2'') \<and> name sub_B2 = ''S2''"
    by code_simp
  have cat: "(\<forall>x\<in>set [cat_A]. name x \<noteq> ''B'') \<and> name cat_B = ''B''"
    by code_simp
  note skip = resume_skips_checkpointed_subcategory [OF resuming]
  have first: "subcategory_loop (site_driver scenario_site) resume_B2 cat_B False
      ([sub_B1] @ sub_B2 # [sub_B3]) (at_page ''B'') =
      visit_every_subcategory (site_driver scenario_site) resume_B2 cat_B [sub_B3] (at_page ''B'')"
    using skip [where category = cat_B and before = "[sub_B1]" and subcategory = sub_B2
        and rest = "[sub_B3]" and d = "site_driver scenario_site" and st = "at_page ''B''"] sub
    by blast
  have second: "category_loop (site_driver scenario_site) resume_B2 False
      ([cat_A] @ cat_B # [cat_C]) (at_page START_URL) =
      visit_every_category (site_driver scenario_site) resume_B2 (cat_B # [cat_C]) (at_page START_URL)"
    using skip [where category = cat_B and earlier = "[cat_A]" and later = "[cat_C]"
        and d = "site_driver scenario_site" and st = "at_page START_URL"] cat
    by blast
  have one: "visit_every_subcategory (site_driver scenario_site) resume_B2 cat_B [sub_B3] (at_page ''B'') =
      visit_subcategory (site_driver scenario_site) resume_B2 cat_B sub_B3 (at_page ''B'')"
    by (simp split: prod.splits sum.splits)
  have whole: "visited (world (snd (run (site_driver scenario_site) False False False kept))) =
     [START_URL, ''B'', ''B/3'', ''C'', ''C/1'', ''C/2'']"
    by code_simp
  show ?thesis
    using first second one whole by simp
qed

subsection \<open>Listing the categories\<close>

lemma fold_print_stdout:
  "stdout (fold (\<lambda>c. print (f c)) cs st) = stdout st @ map f cs"
  by (induction cs arbitrary: st) (simp_all add: print_def)

lemma fold_print_files:
  "output_csv (fold (\<lambda>c. print (f c)) cs st) = output_csv st \<and>
   checkpoint_file (fold (\<lambda>c. print (f c)) cs st) = checkpoint_file st"
  by (induction cs arbitrary: st) (simp_all add: print_def)

text \<open>
  Claim C7, as stated, fails. \<open>run\<close> calls \<open>_init_csv\<close> before it looks at the mode, so
  listing the categories creates the output file when it does not exist.
\<close>

theorem list_categories_counterexample:
  "output_csv (initial None None) = None
   \<and> output_csv (snd (run (site_driver demo_site) True False False (initial None None))) =
       Some [CSV_HEADERS]"
  by code_simp

text \<open>
  Claim C7, amended. In list-categories mode the checkpoint file is left as it is; the
  output file is left as it is when it exists and is created with the header row alone
  when it does not; no other row is written. When the start page loads and its category
  links are read, the run returns normally after printing the number of categories and
  then the name of each category, one per line, the \<open>View All Exhibitors\<close> link left out.
\<close>

theorem list_categories_mode:
  "checkpoint_file (snd (run d True list_subcategories fresh st)) = checkpoint_file st
   \<and> output_csv (snd (run d True list_subcategories fresh st)) =
       (case output_csv st of None \<Rightarrow> Some [CSV_HEADERS] | Some rows \<Rightarrow> Some rows)
   \<and> (\<forall>w w' found w''.
        safe_goto d START_URL 2 (world st) = (Inr (), w) \<and>
        wait_for_selector d CATEGORY_LINK_SELECTOR (wait_for_timeout d 1500 w) = (Inr (), w') \<and>
        extract_link_text_pairs d CATEGORY_LINK_SELECTOR w' = (Inr found, w'') \<longrightarrow>
        fst (run d True list_subcategories fresh st) = Inr () \<and>
        stdout (snd (run d True list_subcategories fresh st)) =
          stdout st @
          (''Found '' @ str_nat (length (filter (\<lambda>category. name category \<noteq> VIEW_ALL_LABEL) found))
             @ '' categories'')
          # map name (filter (\<lambda>category. name category \<noteq> VIEW_ALL_LABEL) found))"
  by (auto simp: run_def run_with_def settle_def Let_def init_csv_def fold_print_stdout fold_print_files print_def
           split: prod.splits sum.splits option.splits)

text \<open>On the site of the examples, with both files present.\<close>

theorem list_categories_mode_witness:
  "fst (run (site_driver demo_site) True False False kept) = Inr ()
   \<and> stdout (snd (run (site_driver demo_site) True False False kept)) = [''Found 2 categories'', ''A'', ''B'']
   \<and> output_csv (snd (run (site_driver demo_site) True False False kept)) = Some [CSV_HEADERS, [''a row'']]
   \<and> checkpoint_file (snd (run (site_driver demo_site) True False False kept)) = Some (resumed ''B'' ''S2'' 3)"
proof -
  let ?D = "site_driver demo_site"
  let ?found = "[\<lparr>name = ''A'', url = ''A''\<rparr>, \<lparr>name = ''View All Exhibitors'', url = ''all''\<rparr>,
      \<lparr>name = ''B'', url = ''B''\<rparr>]"
  have nav: "safe_goto ?D START_URL 2 (world kept) = (Inr (), load START_URL blank)"
    by code_simp
  have shown: "wait_for_selector ?D CATEGORY_LINK_SELECTOR (wait_for_timeout ?D 1500 (load START_URL blank)) =
      (Inr (), load START_URL blank)"
    by code_simp
  have links: "extract_link_text_pairs ?D CATEGORY_LINK_SELECTOR (load START_URL blank) =
      (Inr ?found, load START_URL blank)"
    by code_simp
  have files: "output_csv kept = Some [CSV_HEADERS, [''a row'']]"
    "checkpoint_file kept = Some (resumed ''B'' ''S2'' 3)" "stdout kept = []"
    by (simp_all add: kept_def initial_def)
  have lines: "stdout kept @
      (''Found '' @ str_nat (length (filter (\<lambda>category. name category \<noteq> VIEW_ALL_LABEL) ?found))
         @ '' categories'')
      # map name (filter (\<lambda>category. name category \<noteq> VIEW_ALL_LABEL) ?found) =
      [''Found 2 categories'', ''A'', ''B'']"
    by code_simp
  show ?thesis
    using list_categories_mode [of ?D False False kept] nav shown links files(1,2) lines
    by (simp split: option.splits)
qed

subsection \<open>The phone number\<close>

lemma re_seq_class:
  "re_seq (re_class P) m s = (case s of [] \<Rightarrow> [] | c # cs \<Rightarrow> if P c then m cs else [])"
  by (simp add: re_seq_def re_class_def split: list.splits)

lemma concat_class:
  "concat (map (re_class P) rs) = map tl (filter (\<lambda>r. r \<noteq> [] \<and> P (hd r)) rs)"
  by (induction rs) (auto simp: re_class_def split: list.splits)

lemma re_seq_then_class:
  "re_seq m (re_class P) s = map tl (filter (\<lambda>r. r \<noteq> [] \<and> P (hd r)) (m s))"
  by (simp add: re_seq_def concat_class)

lemma star_set:
  "r \<in> set (re_class_star P s) \<longleftrightarrow> (\<exists>x. s = x @ r \<and> (\<forall>c\<in>set x. P c))"
proof (induction s)
  case Nil
  then show ?case by auto
next
  case (Cons c cs)
  show ?case
  proof
    assume "r \<in> set (re_class_star P (c # cs))"
    then consider "r = c # cs" | "P c" "r \<in> set (re_class_star P cs)"
      by (auto split: if_splits)
    then show "\<exists>x. c # cs = x @ r \<and> (\<forall>c\<in>set x. P c)"
    proof cases
      case 1
      then show ?thesis by auto
    next
      case 2
      then obtain x where "cs = x @ r" "\<forall>c\<in>set x. P c" using Cons.IH by blast
      with 2(1) have "c # cs = (c # x) @ r \<and> (\<forall>a\<in>set (c # x). P a)" by simp
      then show ?thesis by blast
    qed
  next
    assume "\<exists>x. c # cs = x @ r \<and> (\<forall>c\<in>set x. P c)"
    then obtain x where x: "c # cs = x @ r" "\<forall>c\<in>set x. P c" by blast
    show "r \<in> set (re_class_star P (c # cs))"
    proof (cases x)
      case Nil
      with x have "r = c # cs" by simp
      then show ?thesis by simp
    next
      case (Cons a y)
      with x have "P c" "cs = y @ r" "\<forall>c\<in>set y. P c" by auto
      then show ?thesis using Cons.IH by auto
    qed
  qed
qed

lemma star_sorted: "sorted_wrt shorter (re_class_star P s)"
proof (induction s)
  case Nil
  then show ?case by simp
next
  case (Cons c cs)
  have "length r \<le> length cs" if "r \<in> set (re_class_star P cs)" for r
    using that star_set [of r P cs] by auto
  then show ?case using Cons by (auto simp: sorted_wrt_append shorter_def le_imp_less_Suc)
qed

lemma at_least_set:
  "r \<in> set (re_class_at_least n P s) \<longleftrightarrow> (\<exists>x. s = x @ r \<and> (\<forall>c\<in>set x. P c) \<and> n \<le> length x)"
proof (induction n arbitrary: s)
  case 0
  then show ?case by (simp add: star_set)
next
  case (Suc n)
  show ?case
  proof (cases s)
    case Nil
    then show ?thesis by (simp add: re_seq_class)
  next
    case (Cons c cs)
    show ?thesis
    proof
      assume "r \<in> set (re_class_at_least (Suc n) P s)"
      then have "P c" "r \<in> set (re_class_at_least n P cs)"
        using Cons by (auto simp: re_seq_class split: if_splits)
      then obtain x where "cs = x @ r" "\<forall>c\<in>set x. P c" "n \<le> length x"
        using Suc.IH by blast
      with \<open>P c\<close> Cons have "s = (c # x) @ r \<and> (\<forall>a\<in>set (c # x). P a) \<and> Suc n \<le> length (c # x)"
        by simp
      then show "\<exists>x. s = x @ r \<and> (\<forall>c\<in>set x. P c) \<and> Suc n \<le> length x" by blast
    next
      assume "\<exists>x. s = x @ r \<and> (\<forall>c\<in>set x. P c) \<and> Suc n \<le> length x"
      then obtain x where x: "s = x @ r" "\<forall>c\<in>set x. P c" "Suc n \<le> length x" by blast
      then obtain a y where "x = a # y" by (cases x) auto
      with x Cons have "P c" "cs = y @ r" "\<forall>c\<in>set y. P c" "n \<le> length y" by auto
      then show "r \<in> set (re_class_at_least (Suc n) P s)"
        using Cons Suc.IH [of cs] by (auto simp: re_seq_class)
    qed
  qed
qed

lemma at_least_sorted: "sorted_wrt shorter (re_class_at_least n P s)"
  by (induction n arbitrary: s) (auto simp: star_sorted re_seq_class split: list.splits)

lemma sorted_tails:
  "sorted_wrt shorter rs \<Longrightarrow> sorted_wrt shorter (map tl (filter (\<lambda>r. r \<noteq> [] \<and> P (hd r)) rs))"
proof (induction rs)
  case Nil
  then show ?case by simp
next
  case (Cons a rs)
  have "length (tl a) < length (tl x)" if "a \<noteq> []" "length a < length x" for x
    using that by (cases a; cases x) auto
  then show ?case using Cons by (auto simp: shorter_def)
qed


lemma body_re_eq:
  "body_re s =
     (case s of
        [] \<Rightarrow> []
      | d # rest \<Rightarrow>
          if is_digit d
          then map tl (filter (\<lambda>r. r \<noteq> [] \<and> is_digit (hd r)) (re_class_at_least 6 phone_char rest))
          else [])"
  by (simp add: body_re_def re_seq_class re_seq_then_class split: list.splits)

lemma digit_phone_char: "is_digit c \<Longrightarrow> phone_char c"
  by (simp add: phone_char_def)

lemma phone_body_split:
  "phone_body b \<longleftrightarrow>
     (\<exists>d x e. b = d # x @ [e] \<and> is_digit d \<and> is_digit e \<and> 6 \<le> length x \<and> (\<forall>c\<in>set x. phone_char c))"
proof
  assume b: "phone_body b"
  then have len: "8 \<le> length b" by (simp add: phone_body_def)
  then obtain d y where dy: "b = d # y" by (cases b) auto
  with len have "y \<noteq> []" by auto
  then obtain x e where xe: "y = x @ [e]" by (metis rev_exhaust)
  have "is_digit d" "is_digit e" "6 \<le> length x" "\<forall>c\<in>set x. phone_char c"
    using b len by (auto simp: phone_body_def dy xe list_all_iff)
  then show "\<exists>d x e. b = d # x @ [e] \<and> is_digit d \<and> is_digit e \<and> 6 \<le> length x \<and> (\<forall>c\<in>set x. phone_char c)"
    using dy xe by blast
next
  assume "\<exists>d x e. b = d # x @ [e] \<and> is_digit d \<and> is_digit e \<and> 6 \<le> length x \<and> (\<forall>c\<in>set x. phone_char c)"
  then show "phone_body b"
    by (auto simp: phone_body_def list_all_iff digit_phone_char)
qed

lemma body_set: "r \<in> set (body_re s) \<longleftrightarrow> (\<exists>b. s = b @ r \<and> phone_body b)"
proof
  assume r: "r \<in> set (body_re s)"
  then obtain d rest where s: "s = d # rest" "is_digit d"
    by (cases s) (auto simp: body_re_eq split: if_splits)
  with r obtain r0 where r0: "r0 \<in> set (re_class_at_least 6 phone_char rest)" "r0 \<noteq> []"
      "is_digit (hd r0)" "r = tl r0"
    by (auto simp: body_re_eq)
  then obtain x where x: "rest = x @ r0" "\<forall>c\<in>set x. phone_char c" "6 \<le> length x"
    using at_least_set [of r0 6 phone_char rest] by blast
  from r0(2,3,4) obtain e where e: "r0 = e # r" "is_digit e" by (cases r0) auto
  have "s = (d # x @ [e]) @ r" using s x e by simp
  moreover have "phone_body (d # x @ [e])"
    using s(2) e(2) x(2,3) phone_body_split by blast
  ultimately show "\<exists>b. s = b @ r \<and> phone_body b" by blast
next
  assume "\<exists>b. s = b @ r \<and> phone_body b"
  then obtain d x e where b: "s = (d # x @ [e]) @ r" "is_digit d" "is_digit e" "6 \<le> length x"
      "\<forall>c\<in>set x. phone_char c"
    using phone_body_split by blast
  then have "e # r \<in> set (re_class_at_least 6 phone_char (x @ e # r))"
    using at_least_set [of "e # r" 6 phone_char "x @ e # r"] by blast
  then have "r \<in> tl ` {r0 \<in> set (re_class_at_least 6 phone_char (x @ e # r)). r0 \<noteq> [] \<and> is_digit (hd r0)}"
    using b(3) by force
  then show "r \<in> set (body_re s)"
    using b(1,2) by (simp add: body_re_eq)
qed

lemma body_sorted: "sorted_wrt shorter (body_re s)"
  by (auto simp: body_re_eq sorted_tails at_least_sorted split: list.splits)

lemma plus_not_digit: "\<not> is_digit (CHR ''+'')"
  by (simp add: is_digit_def)

lemma phone_re_eq:
  "phone_re s = (case s of [] \<Rightarrow> [] | c # cs \<Rightarrow> if c = CHR ''+'' then body_re cs else body_re s)"
proof -
  have "phone_re s = concat (map body_re (re_class (\<lambda>c. c = CHR ''+'') s)) @ body_re s"
    by (simp add: phone_re_def body_re_def re_seq_def re_opt_def)
  then show ?thesis
    by (auto simp: re_class_def body_re_eq plus_not_digit split: list.splits)
qed

lemma phone_set: "r \<in> set (phone_re s) \<longleftrightarrow> (\<exists>m. s = m @ r \<and> phone_shape m)"
proof (cases s)
  case Nil
  then show ?thesis by (auto simp: phone_re_eq phone_shape_def)
next
  case (Cons c cs)
  show ?thesis
  proof (cases "c = CHR ''+''")
    case True
    have "(\<exists>m. s = m @ r \<and> phone_shape m) \<longleftrightarrow> (\<exists>b. cs = b @ r \<and> phone_body b)"
    proof
      assume "\<exists>m. s = m @ r \<and> phone_shape m"
      then obtain m where m: "s = m @ r" "phone_shape m" by blast
      then obtain m' where "m = c # m'" using Cons by (cases m) (auto simp: phone_shape_def)
      with m Cons True show "\<exists>b. cs = b @ r \<and> phone_body b" by (auto simp: phone_shape_def)
    next
      assume "\<exists>b. cs = b @ r \<and> phone_body b"
      then obtain b where "cs = b @ r" "phone_body b" by blast
      then have "s = (c # b) @ r \<and> phone_shape (c # b)" using Cons True by (simp add: phone_shape_def)
      then show "\<exists>m. s = m @ r \<and> phone_shape m" by blast
    qed
    then show ?thesis using Cons True by (simp add: phone_re_eq body_set)
  next
    case False
    have "(\<exists>m. s = m @ r \<and> phone_shape m) \<longleftrightarrow> (\<exists>b. s = b @ r \<and> phone_body b)"
    proof
      assume "\<exists>m. s = m @ r \<and> phone_shape m"
      then obtain m where m: "s = m @ r" "phone_shape m" by blast
      then obtain m' where "m = c # m'" using Cons by (cases m) (auto simp: phone_shape_def)
      with m False show "\<exists>b. s = b @ r \<and> phone_body b" by (auto simp: phone_shape_def)
    next
      assume "\<exists>b. s = b @ r \<and> phone_body b"
      then obtain b where b: "s = b @ r" "phone_body b" by blast
      then obtain b' where "b = c # b'" using Cons by (cases b) (auto simp: phone_body_def)
      with b False have "phone_shape b" by (simp add: phone_shape_def)
      with b show "\<exists>m. s = m @ r \<and> phone_shape m" by blast
    qed
    then show ?thesis using Cons False by (simp add: phone_re_eq body_set)
  qed
qed

lemma phone_sorted: "sorted_wrt shorter (phone_re s)"
  by (auto simp: phone_re_eq body_sorted split: list.splits)

lemma sorted_hd_shortest:
  "sorted_wrt shorter rs \<Longrightarrow> r \<in> set rs \<Longrightarrow> length (hd rs) \<le> length r"
  by (cases rs) (auto simp: shorter_def dest: less_imp_le)


lemma phone_re_suffix: "r \<in> set (phone_re s) \<Longrightarrow> \<exists>m. s = m @ r"
  using phone_set by blast

lemma search_None:
  "re_search m s = None \<longleftrightarrow> (\<forall>k\<le>length s. m (drop k s) = [])"
proof (induction s)
  case Nil
  then show ?case by (simp split: list.splits)
next
  case (Cons c cs)
  have "(\<forall>k\<le>length (c # cs). m (drop k (c # cs)) = []) \<longleftrightarrow>
      m (c # cs) = [] \<and> (\<forall>k\<le>length cs. m (drop k cs) = [])"
  proof
    assume a: "\<forall>k\<le>length (c # cs). m (drop k (c # cs)) = []"
    then have "m (drop 0 (c # cs)) = []" by blast
    moreover have "m (drop k cs) = []" if "k \<le> length cs" for k
      using a that by (metis Suc_le_mono drop_Suc_Cons length_Cons)
    ultimately show "m (c # cs) = [] \<and> (\<forall>k\<le>length cs. m (drop k cs) = [])" by simp
  next
    assume a: "m (c # cs) = [] \<and> (\<forall>k\<le>length cs. m (drop k cs) = [])"
    show "\<forall>k\<le>length (c # cs). m (drop k (c # cs)) = []"
    proof (intro allI impI)
      fix k assume "k \<le> length (c # cs)"
      then show "m (drop k (c # cs)) = []" using a by (cases k) auto
    qed
  qed
  then show ?case using Cons by (simp split: list.splits)
qed

lemma search_Some:
  assumes "\<And>t r. r \<in> set (m t) \<Longrightarrow> \<exists>x. t = x @ r"
    and "re_search m s = Some x"
  shows "\<exists>pre post. s = pre @ x @ post \<and> m (x @ post) \<noteq> [] \<and> hd (m (x @ post)) = post \<and>
      (\<forall>k<length pre. m (drop k s) = [])"
  using assms(2)
proof (induction s)
  case Nil
  then have "m [] \<noteq> []" "x = []" by (auto split: list.splits)
  moreover from this have "hd (m []) = []"
    using assms(1) [of "hd (m [])" "[]"] by simp
  ultimately have "[] = [] @ x @ [] \<and> m (x @ []) \<noteq> [] \<and> hd (m (x @ [])) = [] \<and>
      (\<forall>k<length ([] :: string). m (drop k []) = [])"
    by simp
  then show ?case by blast
next
  case (Cons c cs)
  show ?case
  proof (cases "m (c # cs)")
    case Nil
    with Cons.prems have "re_search m cs = Some x" by simp
    then obtain pre post where p: "cs = pre @ x @ post" "m (x @ post) \<noteq> []"
        "hd (m (x @ post)) = post" "\<forall>k<length pre. m (drop k cs) = []"
      using Cons.IH by blast
    have "m (drop k (c # cs)) = []" if "k < length (c # pre)" for k
      using that Nil p(4) by (cases k) auto
    with p(1,2,3) have "c # cs = (c # pre) @ x @ post \<and> m (x @ post) \<noteq> [] \<and>
        hd (m (x @ post)) = post \<and> (\<forall>k<length (c # pre). m (drop k (c # cs)) = [])"
      by simp
    then show ?thesis by blast
  next
    case (Cons r rs)
    then obtain y where y: "c # cs = y @ r"
      using assms(1) [of r "c # cs"] by auto
    from Cons Cons.prems have "x = take (length (c # cs) - length r) (c # cs)" by simp
    with y have "x = y" by simp
    with y Cons have "c # cs = [] @ x @ r \<and> m (x @ r) \<noteq> [] \<and> hd (m (x @ r)) = r \<and>
        (\<forall>k<length ([] :: string). m (drop k (c # cs)) = [])"
      by simp
    then show ?thesis by blast
  qed
qed

lemma digit_not_space: "is_digit c \<Longrightarrow> \<not> is_space c"
  by (auto simp: is_digit_def is_space_def)

lemma phone_shape_trimmed: "phone_shape m \<Longrightarrow> m \<noteq> [] \<and> str_strip m = m"
proof -
  assume m: "phone_shape m"
  then obtain c cs where cs: "m = c # cs" by (cases m) (auto simp: phone_shape_def)
  have first: "\<not> is_space (hd m)"
  proof (cases "c = CHR ''+''")
    case True
    then show ?thesis using cs by (simp add: is_space_def)
  next
    case False
    then have "is_digit (hd m)" using m cs by (simp add: phone_shape_def phone_body_def)
    then show ?thesis by (rule digit_not_space)
  qed
  have "is_digit (last m)"
    using m cs by (auto simp: phone_shape_def phone_body_def split: if_splits)
  then have "\<not> is_space (last m)" by (rule digit_not_space)
  with first cs show ?thesis by (simp add: str_strip_fixed)
qed

text \<open>
  Claim C6. The phone field is empty exactly when no part of the contact text has the
  shape of a phone number: an optional \<open>+\<close>, then a run of at least 8 characters, digits
  or separators, that begins and ends with a digit (the length counts the separators).
  Otherwise the phone field is such a part of the text, the first one: no part with that
  shape begins earlier, and none that begins at the same place is longer.
\<close>

theorem phone_is_first_match:
  "(extract_phone t = [] \<longleftrightarrow> \<not> (\<exists>pre m post. t = pre @ m @ post \<and> phone_shape m))
   \<and> (extract_phone t \<noteq> [] \<longrightarrow>
        phone_shape (extract_phone t)
        \<and> (\<exists>pre post. t = pre @ extract_phone t @ post
             \<and> (\<forall>pre' m' post'. t = pre' @ m' @ post' \<and> phone_shape m' \<longrightarrow>
                    length pre < length pre'
                    \<or> (length pre = length pre' \<and> length m' \<le> length (extract_phone t)))))"
proof (cases "re_search phone_re t")
  case None
  have "\<not> phone_shape m" if "t = pre @ m @ post" for pre m post
  proof
    assume "phone_shape m"
    then have "post \<in> set (phone_re (m @ post))" using phone_set by blast
    moreover have everywhere: "\<forall>k\<le>length t. phone_re (drop k t) = []"
      using None by (simp add: search_None)
    have "length pre \<le> length t" using that by simp
    with everywhere have "phone_re (drop (length pre) t) = []" by blast
    then have "phone_re (m @ post) = []" using that by simp
    ultimately show False by simp
  qed
  then show ?thesis using None by (auto simp: extract_phone_def)
next
  case (Some x)
  then obtain pre post where p: "t = pre @ x @ post" "phone_re (x @ post) \<noteq> []"
      "hd (phone_re (x @ post)) = post" "\<forall>k<length pre. phone_re (drop k t) = []"
    using search_Some [of phone_re t x] phone_re_suffix by blast
  from p(2,3) have "post \<in> set (phone_re (x @ post))" by (metis list.set_sel(1))
  then obtain m where "x @ post = m @ post" "phone_shape m" using phone_set by blast
  then have shape: "phone_shape x" by simp
  then have x: "x \<noteq> []" "extract_phone t = x"
    using Some phone_shape_trimmed by (auto simp: extract_phone_def)
  have first: "length pre < length pre' \<or> (length pre = length pre' \<and> length m' \<le> length x)"
    if other: "t = pre' @ m' @ post'" "phone_shape m'" for pre' m' post'
  proof -
    have there: "post' \<in> set (phone_re (m' @ post'))" using other(2) phone_set by blast
    have "\<not> length pre' < length pre"
    proof
      assume "length pre' < length pre"
      then have "phone_re (drop (length pre') t) = []" using p(4) by blast
      with there other(1) show False by simp
    qed
    moreover have "length m' \<le> length x" if "length pre' = length pre"
    proof -
      from that other(1) p(1) have "pre' = pre" "m' @ post' = x @ post" by auto
      with there have "length post \<le> length post'"
        using sorted_hd_shortest [OF phone_sorted, of post' "x @ post"] p(3) by simp
      moreover have "length m' + length post' = length x + length post"
        using \<open>m' @ post' = x @ post\<close> by (metis length_append)
      ultimately show ?thesis by linarith
    qed
    ultimately show ?thesis by linarith
  qed
  have "\<exists>pre post. t = pre @ x @ post
      \<and> (\<forall>pre' m' post'. t = pre' @ m' @ post' \<and> phone_shape m' \<longrightarrow>
             length pre < length pre' \<or> (length pre = length pre' \<and> length m' \<le> length x))"
    using p(1) first by blast
  moreover have "\<exists>pre m post. t = pre @ m @ post \<and> phone_shape m"
    using p(1) shape by blast
  ultimately show ?thesis
    unfolding x(2) using x(1) shape by blast
qed

text \<open>
  The number after the short \<open>12\<close> is found, not the later one; a run of seven characters
  is not a phone number.
\<close>

theorem phone_is_first_match_witness:
  "extract_phone ''Suite 12. Phone +1 (555) 123-4567 or 555 000 1111'' = ''+1 (555) 123-4567''
   \<and> phone_shape ''+1 (555) 123-4567''
   \<and> extract_phone ''call 555-123 now'' = []
   \<and> \<not> (\<exists>pre m post. ''call 555-123 now'' = pre @ m @ post \<and> phone_shape m)"
proof -
  have found: "extract_phone ''Suite 12. Phone +1 (555) 123-4567 or 555 000 1111'' = ''+1 (555) 123-4567''"
    by code_simp
  have none: "extract_phone ''call 555-123 now'' = []"
    by code_simp
  have "phone_shape ''+1 (555) 123-4567''"
    using phone_is_first_match [of "''Suite 12. Phone +1 (555) 123-4567 or 555 000 1111''"] found
    by simp
  moreover have "\<not> (\<exists>pre m post. ''call 555-123 now'' = pre @ m @ post \<and> phone_shape m)"
    using phone_is_first_match [of "''call 555-123 now''"] none
    by blast
  ultimately show ?thesis using found none by blast
qed

end
